theory Spec2Isabelle
  imports Main "HOL-Library.Word" "HOL-Library.Char_ord" "HOL-Library.List_Lexorder"
begin

unbundle bit_operations_syntax

section \<open>Fixed-function render state: StateBlock\<close>

subsection \<open>Override bits, blend constants and GPU calls\<close>

text \<open>
  The override bits of RenderState.cpp. The C++ type of a bit mask is \<open>long\<close>; only the
  five lowest bits are ever used, so the width does not matter and 64 bits are taken.
\<close>

type_synonym long = "64 word"

definition RS_BLEND :: long where "RS_BLEND = 1"
definition RS_BLEND_FUNC :: long where "RS_BLEND_FUNC = 2"
definition RS_CULL_FACE :: long where "RS_CULL_FACE = 4"
definition RS_DEPTH_TEST :: long where "RS_DEPTH_TEST = 8"
definition RS_DEPTH_WRITE :: long where "RS_DEPTH_WRITE = 16"

text \<open>The enumeration \<open>RenderState::Blend\<close> of RenderState.h, with its spellings.\<close>

datatype Blend =
    BLEND_ZERO
  | BLEND_ONE
  | BLEND_SRC_COLOR
  | BLEN_ONE_MINUS_SRC_COLOR
  | BLEND_DST_COLOR
  | BLEND_ONE_MINUS_DST_COLOR
  | BLEND_SRC_ALPHA
  | BLEND_ONE_MINUS_SRC_ALPHA
  | BLEND_DST_ALPHA
  | BLEND_ONE_MINUS_DST_ALPHA
  | BLEND_CONSTANT_ALPHA
  | BLEND_ONE_MINUS_CONSTANT_ALPHA
  | BLEND_SRC_ALPHA_SATURATE

text \<open>
  The calls to the graphics library that the StateBlock code issues. \<open>glDepthMask True\<close>
  stands for \<open>glDepthMask(GL_TRUE)\<close>.
\<close>

datatype GLcap = GL_BLEND | GL_CULL_FACE | GL_DEPTH_TEST

datatype GLcall =
    glEnable GLcap
  | glDisable GLcap
  | glBlendFunc Blend Blend
  | glDepthMask bool

subsection \<open>The StateBlock class\<close>

record StateBlock =
  cullFaceEnabled :: bool
  depthTestEnabled :: bool
  depthWriteEnabled :: bool
  blendEnabled :: bool
  blendSrc :: Blend
  blendDst :: Blend
  bits :: long

text \<open>The constructor \<open>StateBlock::StateBlock()\<close>, which \<open>StateBlock::create()\<close> returns.\<close>

definition StateBlock_create :: StateBlock where
  "StateBlock_create =
     \<lparr>cullFaceEnabled = False, depthTestEnabled = False, depthWriteEnabled = False,
      blendEnabled = False, blendSrc = BLEND_ONE, blendDst = BLEND_ZERO, bits = 0\<rparr>"

definition setBlend :: "bool \<Rightarrow> StateBlock \<Rightarrow> StateBlock" where
  "setBlend enabled sb =
     (let sb1 = sb\<lparr>blendEnabled := enabled\<rparr>
      in if \<not> enabled then sb1\<lparr>bits := bits sb1 AND NOT RS_BLEND\<rparr>
         else sb1\<lparr>bits := bits sb1 OR RS_BLEND\<rparr>)"

definition setBlendSrc :: "Blend \<Rightarrow> StateBlock \<Rightarrow> StateBlock" where
  "setBlendSrc blend sb =
     (let sb1 = sb\<lparr>blendSrc := blend\<rparr>
      in if blendSrc sb1 = BLEND_ONE \<and> blendDst sb1 = BLEND_ZERO
         then sb1\<lparr>bits := bits sb1 AND NOT RS_BLEND_FUNC\<rparr>
         else sb1\<lparr>bits := bits sb1 OR RS_BLEND_FUNC\<rparr>)"

definition setBlendDst :: "Blend \<Rightarrow> StateBlock \<Rightarrow> StateBlock" where
  "setBlendDst blend sb =
     (let sb1 = sb\<lparr>blendDst := blend\<rparr>
      in if blendSrc sb1 = BLEND_ONE \<and> blendDst sb1 = BLEND_ZERO
         then sb1\<lparr>bits := bits sb1 AND NOT RS_BLEND_FUNC\<rparr>
         else sb1\<lparr>bits := bits sb1 OR RS_BLEND_FUNC\<rparr>)"

definition setCullFace :: "bool \<Rightarrow> StateBlock \<Rightarrow> StateBlock" where
  "setCullFace enabled sb =
     (let sb1 = sb\<lparr>cullFaceEnabled := enabled\<rparr>
      in if \<not> enabled then sb1\<lparr>bits := bits sb1 AND NOT RS_CULL_FACE\<rparr>
         else sb1\<lparr>bits := bits sb1 OR RS_CULL_FACE\<rparr>)"

definition setDepthTest :: "bool \<Rightarrow> StateBlock \<Rightarrow> StateBlock" where
  "setDepthTest enabled sb =
     (let sb1 = sb\<lparr>depthTestEnabled := enabled\<rparr>
      in if \<not> enabled then sb1\<lparr>bits := bits sb1 AND NOT RS_DEPTH_TEST\<rparr>
         else sb1\<lparr>bits := bits sb1 OR RS_DEPTH_TEST\<rparr>)"

definition setDepthWrite :: "bool \<Rightarrow> StateBlock \<Rightarrow> StateBlock" where
  "setDepthWrite enabled sb =
     (let sb1 = sb\<lparr>depthWriteEnabled := enabled\<rparr>
      in if enabled then sb1\<lparr>bits := bits sb1 AND NOT RS_DEPTH_WRITE\<rparr>
         else sb1\<lparr>bits := bits sb1 OR RS_DEPTH_WRITE\<rparr>)"

text \<open>A call of one of the six setters, and a sequence of such calls applied in order.\<close>

datatype setter_call =
    SetBlend bool
  | SetBlendSrc Blend
  | SetBlendDst Blend
  | SetCullFace bool
  | SetDepthTest bool
  | SetDepthWrite bool

fun apply_setter :: "setter_call \<Rightarrow> StateBlock \<Rightarrow> StateBlock" where
  "apply_setter (SetBlend b) sb = setBlend b sb"
| "apply_setter (SetBlendSrc f) sb = setBlendSrc f sb"
| "apply_setter (SetBlendDst f) sb = setBlendDst f sb"
| "apply_setter (SetCullFace b) sb = setCullFace b sb"
| "apply_setter (SetDepthTest b) sb = setDepthTest b sb"
| "apply_setter (SetDepthWrite b) sb = setDepthWrite b sb"

fun apply_setters :: "setter_call list \<Rightarrow> StateBlock \<Rightarrow> StateBlock" where
  "apply_setters [] sb = sb"
| "apply_setters (c # cs) sb = apply_setters cs (apply_setter c sb)"

text \<open>
  The five tracked states, the bit of each, the value a block holds for each, and the
  engine default of each (the value that \<open>restore\<close> resets it to and that the setters
  treat as "not overridden").
\<close>

datatype tracked = BLEND | BLEND_FUNC | CULL_FACE | DEPTH_TEST | DEPTH_WRITE

datatype state_value = Flag bool | Func Blend Blend

fun rs_bit :: "tracked \<Rightarrow> long" where
  "rs_bit BLEND = RS_BLEND"
| "rs_bit BLEND_FUNC = RS_BLEND_FUNC"
| "rs_bit CULL_FACE = RS_CULL_FACE"
| "rs_bit DEPTH_TEST = RS_DEPTH_TEST"
| "rs_bit DEPTH_WRITE = RS_DEPTH_WRITE"

fun held :: "StateBlock \<Rightarrow> tracked \<Rightarrow> state_value" where
  "held sb BLEND = Flag (blendEnabled sb)"
| "held sb BLEND_FUNC = Func (blendSrc sb) (blendDst sb)"
| "held sb CULL_FACE = Flag (cullFaceEnabled sb)"
| "held sb DEPTH_TEST = Flag (depthTestEnabled sb)"
| "held sb DEPTH_WRITE = Flag (depthWriteEnabled sb)"

fun default_value :: "tracked \<Rightarrow> state_value" where
  "default_value BLEND = Flag False"
| "default_value BLEND_FUNC = Func BLEND_ONE BLEND_ZERO"
| "default_value CULL_FACE = Flag False"
| "default_value DEPTH_TEST = Flag False"
| "default_value DEPTH_WRITE = Flag True"

definition tracked_states :: "tracked list" where
  "tracked_states = [BLEND, BLEND_FUNC, CULL_FACE, DEPTH_TEST, DEPTH_WRITE]"

definition overrides :: "StateBlock \<Rightarrow> tracked \<Rightarrow> bool" where
  "overrides sb s = (bits sb AND rs_bit s \<noteq> 0)"

section \<open>Material parameters, nodes and the engine's global state\<close>

text \<open>
  Objects that live on the C++ heap and are compared by pointer (nodes, mesh skins,
  effects, render states) are addresses; a null pointer is \<open>None\<close>.
\<close>

type_synonym addr = nat

text \<open>The member functions of \<open>Node\<close> that the built-in auto-bindings bind to.\<close>

datatype NodeGetter =
    getWorldMatrix
  | getViewMatrix
  | getProjectionMatrix
  | getWorldViewMatrix
  | getViewProjectionMatrix
  | getWorldViewProjectionMatrix
  | getInverseTransposeWorldMatrix
  | getInverseTransposeWorldViewMatrix
  | getActiveCameraTranslationWorld
  | getActiveCameraTranslationView

text \<open>
  What a material parameter holds: nothing yet, a literal (opaque here), a method of a
  node bound by \<open>bindValue(node, getter)\<close>, or the matrix palette of a mesh skin bound
  by \<open>bindValue(skin, getMatrixPalette, getMatrixPaletteSize)\<close>.
\<close>

datatype ParameterValue =
    Unset
  | Literal nat
  | NodeMethod "addr option" NodeGetter
  | MatrixPalette addr

record MaterialParameter =
  getName :: string
  held_value :: ParameterValue

text \<open>
  Modelled from the spec: \<open>MaterialParameter::bindValue\<close> (MaterialParameter.h and
  MaterialParameter.cpp are not among the sources). It stores a lazy accessor in the
  parameter, replacing what the parameter held.
\<close>

definition bindValue :: "ParameterValue \<Rightarrow> MaterialParameter \<Rightarrow> MaterialParameter" where
  "bindValue acc p = p\<lparr>held_value := acc\<rparr>"

text \<open>
  \<open>Node::getModel()\<close> and \<open>Model::getSkin()\<close>, both of which may return null. Node.h
  and Model.h are not among the sources; the two accessors are all that is used.
\<close>

record Model =
  getSkin :: "addr option"

record Node =
  getModel :: "Model option"

text \<open>
  A custom resolver receives the binding name (a \<open>const char*\<close>, possibly null), the
  node and a pointer to the parameter, which it may change; it returns whether it
  handled the binding.
\<close>

type_synonym ResolveAutoBindingCallback =
  "string option \<Rightarrow> addr option \<Rightarrow> MaterialParameter \<Rightarrow> bool \<times> MaterialParameter"

text \<open>
  Everything observable that the code does beyond changing its own objects is recorded
  in a log, in the order it happens: calls to the graphics library, uploads of a
  parameter to an effect, calls of a custom resolver (with its index in the registry),
  entries into \<open>applyAutoBinding\<close> (uniform name, binding name, node), and the
  diagnostics of \<open>GP_WARN\<close> and \<open>GP_ERROR\<close> (format string and argument).
\<close>

datatype event =
    GL GLcall
  | ParameterBind MaterialParameter addr
  | ApplyAutoBinding string "string option" "addr option"
  | ResolverCalled nat
  | Warning string "string option"
  | Error string string

datatype error = AssertionFailed | NullPointer

text \<open>
  The static members \<open>StateBlock::_defaultState\<close> and
  \<open>RenderState::_customAutoBindingResolvers\<close>, the nodes of the scene, and the log.
  \<open>GP_ASSERT\<close> is defined in Base.h, which is not among the sources: whether it aborts
  on a false condition (a debug build) or is compiled out is the parameter
  \<open>assertsEnabled\<close>.
\<close>

record Engine =
  defaultState :: "StateBlock option"
  customAutoBindingResolvers :: "ResolveAutoBindingCallback list"
  nodes :: "addr \<Rightarrow> Node"
  assertsEnabled :: bool
  log :: "event list"

definition emit :: "event list \<Rightarrow> Engine \<Rightarrow> Engine" where
  "emit evs E = E\<lparr>log := log E @ evs\<rparr>"

text \<open>
  Modelled from the spec: the macros \<open>GP_WARN\<close> and \<open>GP_ERROR\<close> of Base.h, which is not
  among the sources. The spec has both report a diagnostic and continue (non-fatal).
\<close>

definition GP_WARN :: "string \<Rightarrow> string option \<Rightarrow> Engine \<Rightarrow> Engine" where
  "GP_WARN fmt arg E = emit [Warning fmt arg] E"

definition GP_ERROR :: "string \<Rightarrow> string \<Rightarrow> Engine \<Rightarrow> Engine" where
  "GP_ERROR fmt arg E = emit [Error fmt arg] E"

text \<open>\<open>RenderState::initialize\<close>, \<open>finalize\<close> and \<open>registerAutoBindingResolver\<close>.\<close>

definition initialize :: "Engine \<Rightarrow> Engine" where
  "initialize E =
     (if defaultState E = None then E\<lparr>defaultState := Some StateBlock_create\<rparr> else E)"

definition finalize :: "Engine \<Rightarrow> Engine" where
  "finalize E = E\<lparr>defaultState := None\<rparr>"

definition registerAutoBindingResolver :: "ResolveAutoBindingCallback \<Rightarrow> Engine \<Rightarrow> Engine" where
  "registerAutoBindingResolver callback E =
     E\<lparr>customAutoBindingResolvers := customAutoBindingResolvers E @ [callback]\<rparr>"

section \<open>Binding and restoring a StateBlock\<close>

text \<open>
  \<open>StateBlock::bindNoRestore\<close>. Each of its five \<open>if\<close> statements is one function on
  the pair of the default state and the calls issued so far; \<open>sb\<close> is \<open>this\<close>.
\<close>

type_synonym gl_step = "StateBlock \<times> GLcall list \<Rightarrow> StateBlock \<times> GLcall list"

definition bind_blend :: "StateBlock \<Rightarrow> gl_step" where
  "bind_blend sb = (\<lambda>(d, cs).
     if bits sb AND RS_BLEND \<noteq> 0 \<and> blendEnabled sb \<noteq> blendEnabled d
     then (d\<lparr>blendEnabled := blendEnabled sb\<rparr>,
           cs @ [if blendEnabled sb then glEnable GL_BLEND else glDisable GL_BLEND])
     else (d, cs))"

definition bind_blend_func :: "StateBlock \<Rightarrow> gl_step" where
  "bind_blend_func sb = (\<lambda>(d, cs).
     if bits sb AND RS_BLEND_FUNC \<noteq> 0 \<and> (blendSrc sb \<noteq> blendSrc d \<or> blendDst sb \<noteq> blendDst d)
     then (d\<lparr>blendSrc := blendSrc sb, blendDst := blendDst sb\<rparr>,
           cs @ [glBlendFunc (blendSrc sb) (blendDst sb)])
     else (d, cs))"

definition bind_cull_face :: "StateBlock \<Rightarrow> gl_step" where
  "bind_cull_face sb = (\<lambda>(d, cs).
     if bits sb AND RS_CULL_FACE \<noteq> 0 \<and> cullFaceEnabled sb \<noteq> cullFaceEnabled d
     then (d\<lparr>cullFaceEnabled := cullFaceEnabled sb\<rparr>,
           cs @ [if cullFaceEnabled sb then glEnable GL_CULL_FACE else glDisable GL_CULL_FACE])
     else (d, cs))"

definition bind_depth_test :: "StateBlock \<Rightarrow> gl_step" where
  "bind_depth_test sb = (\<lambda>(d, cs).
     if bits sb AND RS_DEPTH_TEST \<noteq> 0 \<and> depthTestEnabled sb \<noteq> depthTestEnabled d
     then (d\<lparr>depthTestEnabled := depthTestEnabled sb\<rparr>,
           cs @ [if depthTestEnabled sb then glEnable GL_DEPTH_TEST else glDisable GL_DEPTH_TEST])
     else (d, cs))"

definition bind_depth_write :: "StateBlock \<Rightarrow> gl_step" where
  "bind_depth_write sb = (\<lambda>(d, cs).
     if bits sb AND RS_DEPTH_WRITE \<noteq> 0 \<and> depthWriteEnabled sb \<noteq> depthWriteEnabled d
     then (d\<lparr>depthWriteEnabled := depthWriteEnabled sb\<rparr>,
           cs @ [glDepthMask (depthWriteEnabled sb)])
     else (d, cs))"

definition null_default_state :: "Engine \<Rightarrow> error" where
  "null_default_state E = (if assertsEnabled E then AssertionFailed else NullPointer)"

definition bindNoRestore :: "StateBlock \<Rightarrow> Engine \<Rightarrow> error + Engine" where
  "bindNoRestore sb E =
     (case defaultState E of
        None \<Rightarrow> Inl (null_default_state E)
      | Some d0 \<Rightarrow>
          (let s1 = bind_blend sb (d0, []);
               s2 = bind_blend_func sb s1;
               s3 = bind_cull_face sb s2;
               s4 = bind_depth_test sb s3;
               (d5, cs) = bind_depth_write sb s4
           in Inr (emit (map GL cs) (E\<lparr>defaultState := Some (d5\<lparr>bits := bits d5 OR bits sb\<rparr>)\<rparr>))))"

text \<open>\<open>StateBlock::restore\<close>, its five \<open>if\<close> statements likewise.\<close>

definition restore_blend :: "long \<Rightarrow> gl_step" where
  "restore_blend stateOverrideBits = (\<lambda>(d, cs).
     if stateOverrideBits AND RS_BLEND = 0 \<and> bits d AND RS_BLEND \<noteq> 0
     then (d\<lparr>bits := bits d AND NOT RS_BLEND, blendEnabled := False\<rparr>,
           cs @ [glDisable GL_BLEND])
     else (d, cs))"

definition restore_blend_func :: "long \<Rightarrow> gl_step" where
  "restore_blend_func stateOverrideBits = (\<lambda>(d, cs).
     if stateOverrideBits AND RS_BLEND_FUNC = 0 \<and> bits d AND RS_BLEND_FUNC \<noteq> 0
     then (d\<lparr>bits := bits d AND NOT RS_BLEND_FUNC, blendSrc := BLEND_ONE, blendDst := BLEND_ZERO\<rparr>,
           cs @ [glBlendFunc BLEND_ONE BLEND_ZERO])
     else (d, cs))"

definition restore_cull_face :: "long \<Rightarrow> gl_step" where
  "restore_cull_face stateOverrideBits = (\<lambda>(d, cs).
     if stateOverrideBits AND RS_CULL_FACE = 0 \<and> bits d AND RS_CULL_FACE \<noteq> 0
     then (d\<lparr>bits := bits d AND NOT RS_CULL_FACE, cullFaceEnabled := False\<rparr>,
           cs @ [glDisable GL_CULL_FACE])
     else (d, cs))"

definition restore_depth_test :: "long \<Rightarrow> gl_step" where
  "restore_depth_test stateOverrideBits = (\<lambda>(d, cs).
     if stateOverrideBits AND RS_DEPTH_TEST = 0 \<and> bits d AND RS_DEPTH_TEST \<noteq> 0
     then (d\<lparr>bits := bits d AND NOT RS_DEPTH_TEST, depthTestEnabled := False\<rparr>,
           cs @ [glDisable GL_DEPTH_TEST])
     else (d, cs))"

definition restore_depth_write :: "long \<Rightarrow> gl_step" where
  "restore_depth_write stateOverrideBits = (\<lambda>(d, cs).
     if stateOverrideBits AND RS_DEPTH_WRITE = 0 \<and> bits d AND RS_DEPTH_WRITE \<noteq> 0
     then (d\<lparr>bits := bits d AND NOT RS_DEPTH_WRITE, depthWriteEnabled := True\<rparr>,
           cs @ [glDepthMask True])
     else (d, cs))"

definition restore :: "long \<Rightarrow> Engine \<Rightarrow> error + Engine" where
  "restore stateOverrideBits E =
     (case defaultState E of
        None \<Rightarrow> Inl (null_default_state E)
      | Some d0 \<Rightarrow>
          if bits d0 = 0 then Inr E
          else
            (let s1 = restore_blend stateOverrideBits (d0, []);
                 s2 = restore_blend_func stateOverrideBits s1;
                 s3 = restore_cull_face stateOverrideBits s2;
                 s4 = restore_depth_test stateOverrideBits s3;
                 (d5, cs) = restore_depth_write stateOverrideBits s4
             in Inr (emit (map GL cs) (E\<lparr>defaultState := Some d5\<rparr>))))"

text \<open>\<open>StateBlock::bind\<close>: restore with this block's bits, then \<open>bindNoRestore\<close>.\<close>

definition StateBlock_bind :: "StateBlock \<Rightarrow> Engine \<Rightarrow> error + Engine" where
  "StateBlock_bind sb E =
     (case restore (bits sb) E of
        Inl e \<Rightarrow> Inl e
      | Inr E1 \<Rightarrow> bindNoRestore sb E1)"

text \<open>\<open>StateBlock::enableDepthWrite\<close>.\<close>

definition enableDepthWrite :: "Engine \<Rightarrow> error + Engine" where
  "enableDepthWrite E =
     (case defaultState E of
        None \<Rightarrow> Inl (null_default_state E)
      | Some d \<Rightarrow>
          if \<not> depthWriteEnabled d
          then Inr (emit [GL (glDepthMask True)]
                 (E\<lparr>defaultState := Some (d\<lparr>bits := bits d AND NOT RS_DEPTH_WRITE, depthWriteEnabled := True\<rparr>)\<rparr>))
          else Inr E)"

text \<open>
  The GPU call that resets a tracked state to its default, and the one that sets it to
  the value of a block: the calls that \<open>restore\<close> and \<open>bindNoRestore\<close> issue.
\<close>

fun reset_call :: "tracked \<Rightarrow> GLcall" where
  "reset_call BLEND = glDisable GL_BLEND"
| "reset_call BLEND_FUNC = glBlendFunc BLEND_ONE BLEND_ZERO"
| "reset_call CULL_FACE = glDisable GL_CULL_FACE"
| "reset_call DEPTH_TEST = glDisable GL_DEPTH_TEST"
| "reset_call DEPTH_WRITE = glDepthMask True"

fun set_call :: "StateBlock \<Rightarrow> tracked \<Rightarrow> GLcall" where
  "set_call sb BLEND = (if blendEnabled sb then glEnable GL_BLEND else glDisable GL_BLEND)"
| "set_call sb BLEND_FUNC = glBlendFunc (blendSrc sb) (blendDst sb)"
| "set_call sb CULL_FACE =
     (if cullFaceEnabled sb then glEnable GL_CULL_FACE else glDisable GL_CULL_FACE)"
| "set_call sb DEPTH_TEST =
     (if depthTestEnabled sb then glEnable GL_DEPTH_TEST else glDisable GL_DEPTH_TEST)"
| "set_call sb DEPTH_WRITE = glDepthMask (depthWriteEnabled sb)"

text \<open>
  A tracked state is stale for \<open>restore b\<close> when the default state's bit for it is set
  and \<open>b\<close> does not claim it; a block changes a tracked state when it overrides it with
  a value other than the cached one.
\<close>

definition stale :: "long \<Rightarrow> StateBlock \<Rightarrow> tracked \<Rightarrow> bool" where
  "stale b d s = (overrides d s \<and> b AND rs_bit s = 0)"

definition changes :: "StateBlock \<Rightarrow> StateBlock \<Rightarrow> tracked \<Rightarrow> bool" where
  "changes sb d s = (overrides sb s \<and> held sb s \<noteq> held d s)"

section \<open>The RenderState hierarchy\<close>

text \<open>
  A RenderState. Its parameters are owned by it (a list of values stands for the vector
  of pointers); the auto-bindings are the entries of the \<open>std::map\<close> in key order; the
  node binding and the parent are pointers; the StateBlock is read but never written
  through a RenderState by the functions below.
\<close>

record RenderState =
  parameters :: "MaterialParameter list"
  autoBindings :: "(string \<times> string) list"
  nodeBinding :: "addr option"
  state :: "StateBlock option"
  parent :: "addr option"

text \<open>
  The RenderStates of the program, by address. Every address holds one: a pointer to
  a destroyed RenderState is outside the model. A parent chain may still be cyclic.
\<close>

type_synonym heap = "addr \<Rightarrow> RenderState"

text \<open>\<open>Pass::getEffect()\<close>; Pass.h is not among the sources.\<close>

record Pass =
  getEffect :: addr

definition RenderState_create :: RenderState where
  "RenderState_create =
     \<lparr>parameters = [], autoBindings = [], nodeBinding = None, state = None, parent = None\<rparr>"

text \<open>
  Modelled from the spec: \<open>MaterialParameter::bind(effect)\<close> (MaterialParameter.cpp is
  not among the sources). It pushes the parameter's current value into the uniform of
  the effect; the upload is recorded in the log.
\<close>

definition MaterialParameter_bind :: "MaterialParameter \<Rightarrow> addr \<Rightarrow> Engine \<Rightarrow> Engine" where
  "MaterialParameter_bind p effect E = emit [ParameterBind p effect] E"

text \<open>The \<open>for\<close> loop of \<open>RenderState::bind\<close> over the parameters of one level.\<close>

fun bind_parameters :: "MaterialParameter list \<Rightarrow> addr \<Rightarrow> Engine \<Rightarrow> Engine" where
  "bind_parameters [] effect E = E"
| "bind_parameters (p # ps) effect E = bind_parameters ps effect (MaterialParameter_bind p effect E)"

text \<open>
  The first \<open>while\<close> loop of \<open>RenderState::bind\<close>, which ORs the bits of the ancestors'
  blocks into \<open>stateOverrideBits\<close>. On a cyclic parent chain it does not return.
\<close>

partial_function (option) ancestor_bits :: "heap \<Rightarrow> addr option \<Rightarrow> long \<Rightarrow> long option" where
  "ancestor_bits h rs stateOverrideBits =
     (case rs of
        None \<Rightarrow> Some stateOverrideBits
      | Some a \<Rightarrow>
          ancestor_bits h (parent (h a))
            (case state (h a) of
               Some sb \<Rightarrow> stateOverrideBits OR bits sb
             | None \<Rightarrow> stateOverrideBits))"

text \<open>
  \<open>RenderState::getTopmost\<close>: \<open>Some None\<close> is the return value \<open>NULL\<close>, and \<open>None\<close> is a
  loop that does not return.
\<close>

partial_function (option) getTopmost_loop ::
    "heap \<Rightarrow> addr option \<Rightarrow> addr option \<Rightarrow> addr option option" where
  "getTopmost_loop h rs below =
     (case rs of
        None \<Rightarrow> Some None
      | Some a \<Rightarrow>
          if parent (h a) = below \<or> parent (h a) = None then Some (Some a)
          else getTopmost_loop h (parent (h a)) below)"

definition getTopmost :: "heap \<Rightarrow> addr \<Rightarrow> addr option \<Rightarrow> addr option option" where
  "getTopmost h this below =
     (if Some this = below then Some None else getTopmost_loop h (Some this) below)"

text \<open>The body of the second \<open>while\<close> loop of \<open>RenderState::bind\<close> for the level \<open>a\<close>.\<close>

definition bind_level :: "heap \<Rightarrow> addr \<Rightarrow> addr \<Rightarrow> Engine \<Rightarrow> error + Engine" where
  "bind_level h effect a E =
     (let E1 = bind_parameters (parameters (h a)) effect E
      in case state (h a) of
           None \<Rightarrow> Inr E1
         | Some sb \<Rightarrow> bindNoRestore sb E1)"

text \<open>The second \<open>while\<close> loop: \<open>while ((rs = getTopmost(rs)))\<close>.\<close>

partial_function (option) bind_walk ::
    "heap \<Rightarrow> addr \<Rightarrow> addr \<Rightarrow> addr option \<Rightarrow> Engine \<Rightarrow> (error + Engine) option" where
  "bind_walk h this effect rs E =
     (case getTopmost h this rs of
        None \<Rightarrow> None
      | Some None \<Rightarrow> Some (Inr E)
      | Some (Some a) \<Rightarrow>
          (case bind_level h effect a E of
             Inl e \<Rightarrow> Some (Inl e)
           | Inr E1 \<Rightarrow> bind_walk h this effect (Some a) E1))"

text \<open>\<open>RenderState::bind(pass)\<close> for the RenderState at address \<open>this\<close>.\<close>

definition RenderState_bind :: "heap \<Rightarrow> addr \<Rightarrow> Pass \<Rightarrow> Engine \<Rightarrow> (error + Engine) option" where
  "RenderState_bind h this pass E =
     (case ancestor_bits h (parent (h this))
             (case state (h this) of Some sb \<Rightarrow> bits sb | None \<Rightarrow> 0) of
        None \<Rightarrow> None
      | Some stateOverrideBits \<Rightarrow>
          (case restore stateOverrideBits E of
             Inl e \<Rightarrow> Some (Inl e)
           | Inr E1 \<Rightarrow> bind_walk h this (getEffect pass) None E1))"

subsection \<open>The hierarchy as the spec describes it\<close>

text \<open>
  \<open>ancestry h a as\<close>: following the parent pointers from \<open>a\<close> visits exactly the
  addresses \<open>as\<close> (\<open>a\<close> first, the root last) and then reaches null. Such a chain is
  finite, and it is acyclic (lemma \<open>ancestry_distinct\<close>).
\<close>

fun ancestry :: "heap \<Rightarrow> addr \<Rightarrow> addr list \<Rightarrow> bool" where
  "ancestry h a [] = False"
| "ancestry h a [x] = (x = a \<and> parent (h a) = None)"
| "ancestry h a (x # y # ys) = (x = a \<and> parent (h a) = Some y \<and> ancestry h y (y # ys))"

text \<open>The union of the override bits of the blocks of the levels \<open>as\<close>.\<close>

definition union_bits :: "heap \<Rightarrow> addr list \<Rightarrow> long" where
  "union_bits h as =
     fold (\<lambda>a acc. case state (h a) of Some sb \<Rightarrow> acc OR bits sb | None \<Rightarrow> acc) as 0"

text \<open>Binding the levels of a list one after the other, stopping at an error.\<close>

fun bind_levels :: "heap \<Rightarrow> addr \<Rightarrow> addr list \<Rightarrow> Engine \<Rightarrow> error + Engine" where
  "bind_levels h effect [] E = Inr E"
| "bind_levels h effect (a # as) E =
     (case bind_level h effect a E of
        Inl e \<Rightarrow> Inl e
      | Inr E1 \<Rightarrow> bind_levels h effect as E1)"

text \<open>
  The spec's words for \<open>bind(pass)\<close>: restore once with the union of the bits, then bind
  the levels top-down, the root first and this RenderState last.
\<close>

definition bind_top_down :: "heap \<Rightarrow> addr list \<Rightarrow> addr \<Rightarrow> Engine \<Rightarrow> error + Engine" where
  "bind_top_down h as effect E =
     (case restore (union_bits h as) E of
        Inl e \<Rightarrow> Inl e
      | Inr E1 \<Rightarrow> bind_levels h effect (rev as) E1)"

text \<open>
  The block that decides a tracked state in a hierarchy: the block of the nearest level
  (this RenderState first, then its parent, and so on) whose override bit for the state
  is set.
\<close>

fun nearest_override :: "heap \<Rightarrow> addr list \<Rightarrow> tracked \<Rightarrow> StateBlock option" where
  "nearest_override h [] s = None"
| "nearest_override h (a # as) s =
     (case state (h a) of
        Some sb \<Rightarrow> if overrides sb s then Some sb else nearest_override h as s
      | None \<Rightarrow> nearest_override h as s)"

text \<open>The cached value of a tracked state after a call that returned an engine.\<close>

definition cached_after :: "(error + Engine) option \<Rightarrow> tracked \<Rightarrow> state_value option" where
  "cached_after r s =
     (case r of
        Some (Inr E) \<Rightarrow> (case defaultState E of Some d \<Rightarrow> Some (held d s) | None \<Rightarrow> None)
      | _ \<Rightarrow> None)"

section \<open>Auto-bindings\<close>

text \<open>The enumeration \<open>RenderState::AutoBinding\<close> of RenderState.h.\<close>

datatype AutoBinding =
    NONE
  | WORLD_MATRIX
  | VIEW_MATRIX
  | PROJECTION_MATRIX
  | WORLD_VIEW_MATRIX
  | VIEW_PROJECTION_MATRIX
  | WORLD_VIEW_PROJECTION_MATRIX
  | INVERSE_TRANSPOSE_WORLD_MATRIX
  | INVERSE_TRANSPOSE_WORLD_VIEW_MATRIX
  | CAMERA_WORLD_POSITION
  | CAMERA_VIEW_POSITION
  | MATRIX_PALETTE

text \<open>
  \<open>autoBindingToString\<close>: the \<open>switch\<close> with its cases in the order of the source; the
  last equation is the \<open>default\<close> label, and \<open>None\<close> is the null pointer.
\<close>

fun autoBindingToString :: "AutoBinding \<Rightarrow> string option" where
  "autoBindingToString NONE = None"
| "autoBindingToString VIEW_MATRIX = Some ''VIEW_MATRIX''"
| "autoBindingToString PROJECTION_MATRIX = Some ''PROJECTION_MATRIX''"
| "autoBindingToString WORLD_VIEW_MATRIX = Some ''WORLD_VIEW_MATRIX''"
| "autoBindingToString VIEW_PROJECTION_MATRIX = Some ''VIEW_PROJECTION_MATRIX''"
| "autoBindingToString WORLD_VIEW_PROJECTION_MATRIX = Some ''WORLD_VIEW_PROJECTION_MATRIX''"
| "autoBindingToString INVERSE_TRANSPOSE_WORLD_MATRIX = Some ''INVERSE_TRANSPOSE_WORLD_MATRIX''"
| "autoBindingToString INVERSE_TRANSPOSE_WORLD_VIEW_MATRIX =
     Some ''INVERSE_TRANSPOSE_WORLD_VIEW_MATRIX''"
| "autoBindingToString CAMERA_WORLD_POSITION = Some ''CAMERA_WORLD_POSITION''"
| "autoBindingToString CAMERA_VIEW_POSITION = Some ''CAMERA_VIEW_POSITION''"
| "autoBindingToString MATRIX_PALETTE = Some ''MATRIX_PALETTE''"
| "autoBindingToString _ = Some []"

text \<open>
  \<open>RenderState::getParameter\<close>: the index of the first parameter with the name, or a new
  parameter appended to the list. The index stands for the pointer that is returned.
\<close>

fun find_parameter :: "MaterialParameter list \<Rightarrow> string \<Rightarrow> nat option" where
  "find_parameter [] name = None"
| "find_parameter (p # ps) name =
     (if getName p = name then Some 0 else map_option Suc (find_parameter ps name))"

definition getParameter :: "string \<Rightarrow> RenderState \<Rightarrow> nat \<times> RenderState" where
  "getParameter name rs =
     (case find_parameter (parameters rs) name of
        Some i \<Rightarrow> (i, rs)
      | None \<Rightarrow>
          (length (parameters rs),
           rs\<lparr>parameters := parameters rs @ [\<lparr>getName = name, held_value = Unset\<rparr>]\<rparr>))"

text \<open>
  The operations of \<open>std::map<std::string, std::string>\<close> that the code uses, on the
  list of entries in key order: \<open>find\<close>, \<open>erase\<close> of the entry found, and assignment
  through \<open>operator[]\<close>.
\<close>

definition map_find :: "(string \<times> string) list \<Rightarrow> string \<Rightarrow> string option" where
  "map_find m k = map_of m k"

fun map_erase :: "string \<Rightarrow> (string \<times> string) list \<Rightarrow> (string \<times> string) list" where
  "map_erase k [] = []"
| "map_erase k ((k', v') # m) = (if k' = k then m else (k', v') # map_erase k m)"

fun map_assign :: "string \<Rightarrow> string \<Rightarrow> (string \<times> string) list \<Rightarrow> (string \<times> string) list" where
  "map_assign k v [] = [(k, v)]"
| "map_assign k v ((k', v') # m) =
     (if k = k' then (k, v) # m
      else if k < k' then (k, v) # (k', v') # m
      else (k', v') # map_assign k v m)"

text \<open>
  The loop of \<open>applyAutoBinding\<close> over the registered resolvers, from index \<open>i\<close> on: the
  result says whether a resolver handled the binding, what the parameter is afterwards,
  and which resolvers were called.
\<close>

fun call_resolvers ::
    "ResolveAutoBindingCallback list \<Rightarrow> nat \<Rightarrow> string option \<Rightarrow> addr option \<Rightarrow> MaterialParameter
      \<Rightarrow> bool \<times> MaterialParameter \<times> event list" where
  "call_resolvers [] i autoBinding node param = (False, param, [])"
| "call_resolvers (r # rs) i autoBinding node param =
     (case r autoBinding node param of
        (handled, param1) \<Rightarrow>
          if handled then (True, param1, [ResolverCalled i])
          else (case call_resolvers rs (Suc i) autoBinding node param1 of
                  (handled2, param2, evs) \<Rightarrow> (handled2, param2, ResolverCalled i # evs)))"

text \<open>
  The built-in resolution of \<open>applyAutoBinding\<close>: the chain of \<open>strcmp\<close> tests in the order
  of the source. Dereferencing a null node for \<open>MATRIX_PALETTE\<close> is an error.
\<close>

definition builtin_resolution ::
    "string \<Rightarrow> addr option \<Rightarrow> MaterialParameter \<Rightarrow> Engine \<Rightarrow> error + (MaterialParameter \<times> Engine)" where
  "builtin_resolution autoBinding node param E =
     (if autoBinding = ''WORLD_MATRIX''
      then Inr (bindValue (NodeMethod node getWorldMatrix) param, E)
      else if autoBinding = ''VIEW_MATRIX''
      then Inr (bindValue (NodeMethod node getViewMatrix) param, E)
      else if autoBinding = ''PROJECTION_MATRIX''
      then Inr (bindValue (NodeMethod node getProjectionMatrix) param, E)
      else if autoBinding = ''WORLD_VIEW_MATRIX''
      then Inr (bindValue (NodeMethod node getWorldViewMatrix) param, E)
      else if autoBinding = ''VIEW_PROJECTION_MATRIX''
      then Inr (bindValue (NodeMethod node getViewProjectionMatrix) param, E)
      else if autoBinding = ''WORLD_VIEW_PROJECTION_MATRIX''
      then Inr (bindValue (NodeMethod node getWorldViewProjectionMatrix) param, E)
      else if autoBinding = ''INVERSE_TRANSPOSE_WORLD_MATRIX''
      then Inr (bindValue (NodeMethod node getInverseTransposeWorldMatrix) param, E)
      else if autoBinding = ''INVERSE_TRANSPOSE_WORLD_VIEW_MATRIX''
      then Inr (bindValue (NodeMethod node getInverseTransposeWorldViewMatrix) param, E)
      else if autoBinding = ''CAMERA_WORLD_POSITION''
      then Inr (bindValue (NodeMethod node getActiveCameraTranslationWorld) param, E)
      else if autoBinding = ''CAMERA_VIEW_POSITION''
      then Inr (bindValue (NodeMethod node getActiveCameraTranslationView) param, E)
      else if autoBinding = ''MATRIX_PALETTE''
      then (case node of
              None \<Rightarrow> Inl NullPointer
            | Some n \<Rightarrow>
                (let model = getModel (nodes E n);
                     skin = (case model of Some m \<Rightarrow> getSkin m | None \<Rightarrow> None)
                 in case skin of
                      Some s \<Rightarrow> Inr (bindValue (MatrixPalette s) param, E)
                    | None \<Rightarrow> Inr (param, E)))
      else Inr (param, GP_WARN ''Unsupported auto binding type (%d).'' (Some autoBinding) E))"

text \<open>
  \<open>RenderState::applyAutoBinding\<close>. The log records the entry into the function. A null
  binding name that no custom resolver handles reaches \<open>strcmp\<close>, which is an error.
\<close>

definition applyAutoBinding ::
    "string \<Rightarrow> string option \<Rightarrow> RenderState \<Rightarrow> Engine \<Rightarrow> error + (RenderState \<times> Engine)" where
  "applyAutoBinding uniformName autoBinding rs E =
     (let (i, rs1) = getParameter uniformName rs;
          E1 = emit [ApplyAutoBinding uniformName autoBinding (nodeBinding rs1)] E;
          (handled, param1, evs) =
             call_resolvers (customAutoBindingResolvers E1) 0 autoBinding (nodeBinding rs1)
               (parameters rs1 ! i);
          E2 = emit evs E1
      in if handled then Inr (rs1\<lparr>parameters := (parameters rs1)[i := param1]\<rparr>, E2)
         else (case autoBinding of
                 None \<Rightarrow> Inl NullPointer
               | Some ab \<Rightarrow>
                   (case builtin_resolution ab (nodeBinding rs1) param1 E2 of
                      Inl e \<Rightarrow> Inl e
                    | Inr (param2, E3) \<Rightarrow>
                        Inr (rs1\<lparr>parameters := (parameters rs1)[i := param2]\<rparr>, E3))))"

text \<open>
  \<open>RenderState::setParameterAutoBinding(const char*, const char*)\<close>. The name is a
  string (a null name is outside the model); the binding name may be null, which
  \<open>GP_ASSERT(autoBinding)\<close> rejects where assertions are enabled.
\<close>

definition setParameterAutoBinding ::
    "string \<Rightarrow> string option \<Rightarrow> RenderState \<Rightarrow> Engine \<Rightarrow> error + (RenderState \<times> Engine)" where
  "setParameterAutoBinding name autoBinding rs E =
     (if assertsEnabled E \<and> autoBinding = None then Inl AssertionFailed
      else
        (let rs1 =
               (case autoBinding of
                  None \<Rightarrow>
                    (case map_find (autoBindings rs) name of
                       Some _ \<Rightarrow> rs\<lparr>autoBindings := map_erase name (autoBindings rs)\<rparr>
                     | None \<Rightarrow> rs)
                | Some ab \<Rightarrow> rs\<lparr>autoBindings := map_assign name ab (autoBindings rs)\<rparr>)
         in if nodeBinding rs1 \<noteq> None then applyAutoBinding name autoBinding rs1 E
            else Inr (rs1, E)))"

text \<open>The overload \<open>setParameterAutoBinding(const char*, AutoBinding)\<close>.\<close>

definition setParameterAutoBinding_enum ::
    "string \<Rightarrow> AutoBinding \<Rightarrow> RenderState \<Rightarrow> Engine \<Rightarrow> error + (RenderState \<times> Engine)" where
  "setParameterAutoBinding_enum name autoBinding rs E =
     setParameterAutoBinding name (autoBindingToString autoBinding) rs E"

text \<open>
  \<open>RenderState::setNodeBinding\<close>; \<open>apply_all\<close> is its \<open>while\<close> loop over the entries of the
  map, which \<open>applyAutoBinding\<close> does not change.
\<close>

fun apply_all ::
    "(string \<times> string) list \<Rightarrow> RenderState \<Rightarrow> Engine \<Rightarrow> error + (RenderState \<times> Engine)" where
  "apply_all [] rs E = Inr (rs, E)"
| "apply_all ((k, v) # m) rs E =
     (case applyAutoBinding k (Some v) rs E of
        Inl e \<Rightarrow> Inl e
      | Inr (rs1, E1) \<Rightarrow> apply_all m rs1 E1)"

definition setNodeBinding ::
    "addr option \<Rightarrow> RenderState \<Rightarrow> Engine \<Rightarrow> error + (RenderState \<times> Engine)" where
  "setNodeBinding node rs E =
     (if nodeBinding rs \<noteq> node
      then (let rs1 = rs\<lparr>nodeBinding := node\<rparr>
            in if nodeBinding rs1 \<noteq> None then apply_all (autoBindings rs1) rs1 E
               else Inr (rs1, E))
      else Inr (rs, E))"

subsection \<open>The resolution protocol in the spec's words\<close>

text \<open>
  The fixed built-in table of the spec: the binding names that map to an accessor of the
  node. \<open>MATRIX_PALETTE\<close> maps to the node's skin and is treated apart.
\<close>

definition builtin_table :: "(string \<times> NodeGetter) list" where
  "builtin_table =
     [(''WORLD_MATRIX'', getWorldMatrix),
      (''VIEW_MATRIX'', getViewMatrix),
      (''PROJECTION_MATRIX'', getProjectionMatrix),
      (''WORLD_VIEW_MATRIX'', getWorldViewMatrix),
      (''VIEW_PROJECTION_MATRIX'', getViewProjectionMatrix),
      (''WORLD_VIEW_PROJECTION_MATRIX'', getWorldViewProjectionMatrix),
      (''INVERSE_TRANSPOSE_WORLD_MATRIX'', getInverseTransposeWorldMatrix),
      (''INVERSE_TRANSPOSE_WORLD_VIEW_MATRIX'', getInverseTransposeWorldViewMatrix),
      (''CAMERA_WORLD_POSITION'', getActiveCameraTranslationWorld),
      (''CAMERA_VIEW_POSITION'', getActiveCameraTranslationView)]"

text \<open>The skin of the model of a node, if the node has a model and the model a skin.\<close>

definition skin_of :: "Engine \<Rightarrow> addr \<Rightarrow> addr option" where
  "skin_of E n = (case getModel (nodes E n) of Some m \<Rightarrow> getSkin m | None \<Rightarrow> None)"

text \<open>
  Offering a binding to a list of resolvers in order: whether all of them decline, and
  the parameter as they leave it.
\<close>

fun declined ::
    "ResolveAutoBindingCallback list \<Rightarrow> string option \<Rightarrow> addr option \<Rightarrow> MaterialParameter \<Rightarrow> bool" where
  "declined [] ab node p = True"
| "declined (r # rs) ab node p = (\<not> fst (r ab node p) \<and> declined rs ab node (snd (r ab node p)))"

fun offered ::
    "ResolveAutoBindingCallback list \<Rightarrow> string option \<Rightarrow> addr option \<Rightarrow> MaterialParameter
      \<Rightarrow> MaterialParameter" where
  "offered [] ab node p = p"
| "offered (r # rs) ab node p = offered rs ab node (snd (r ab node p))"

text \<open>The spelled-out name of an enumeration constant, as RenderState.h declares it.\<close>

fun spelled :: "AutoBinding \<Rightarrow> string" where
  "spelled NONE = ''NONE''"
| "spelled WORLD_MATRIX = ''WORLD_MATRIX''"
| "spelled VIEW_MATRIX = ''VIEW_MATRIX''"
| "spelled PROJECTION_MATRIX = ''PROJECTION_MATRIX''"
| "spelled WORLD_VIEW_MATRIX = ''WORLD_VIEW_MATRIX''"
| "spelled VIEW_PROJECTION_MATRIX = ''VIEW_PROJECTION_MATRIX''"
| "spelled WORLD_VIEW_PROJECTION_MATRIX = ''WORLD_VIEW_PROJECTION_MATRIX''"
| "spelled INVERSE_TRANSPOSE_WORLD_MATRIX = ''INVERSE_TRANSPOSE_WORLD_MATRIX''"
| "spelled INVERSE_TRANSPOSE_WORLD_VIEW_MATRIX = ''INVERSE_TRANSPOSE_WORLD_VIEW_MATRIX''"
| "spelled CAMERA_WORLD_POSITION = ''CAMERA_WORLD_POSITION''"
| "spelled CAMERA_VIEW_POSITION = ''CAMERA_VIEW_POSITION''"
| "spelled MATRIX_PALETTE = ''MATRIX_PALETTE''"

text \<open>The entries into \<open>applyAutoBinding\<close> in a log.\<close>

fun applications :: "event list \<Rightarrow> event list" where
  "applications [] = []"
| "applications (ApplyAutoBinding u b n # evs) = ApplyAutoBinding u b n # applications evs"
| "applications (_ # evs) = applications evs"

text \<open>
  The value of the parameter that \<open>getParameter\<close> finds for a name, if the RenderState
  has a parameter of that name.
\<close>

definition parameter_value :: "RenderState \<Rightarrow> string \<Rightarrow> ParameterValue option" where
  "parameter_value rs k =
     (case find_parameter (parameters rs) k of
        Some i \<Rightarrow> Some (held_value (parameters rs ! i))
      | None \<Rightarrow> None)"

text \<open>
  Applying one recorded entry to the result of the applications before it; an error
  ends the sequence.
\<close>

definition apply_entry ::
    "string \<times> string \<Rightarrow> error + (RenderState \<times> Engine) \<Rightarrow> error + (RenderState \<times> Engine)" where
  "apply_entry kv r =
     (case r of
        Inl e \<Rightarrow> Inl e
      | Inr (rs, E) \<Rightarrow> applyAutoBinding (fst kv) (Some (snd kv)) rs E)"

text \<open>A resolver is inert when it declines every binding and leaves the parameter alone.\<close>

definition inert :: "ResolveAutoBindingCallback \<Rightarrow> bool" where
  "inert r = (\<forall>ab node p. r ab node p = (False, p))"

section \<open>String-driven configuration of a StateBlock\<close>

text \<open>
  \<open>tolower\<close> and \<open>toupper\<close> of the C library in the "C" locale: the 26 letters of ASCII are
  mapped, every other character is returned as it is.
\<close>

definition upper_letters :: string where
  "upper_letters = ''ABCDEFGHIJKLMNOPQRSTUVWXYZ''"

definition lower_letters :: string where
  "lower_letters = ''abcdefghijklmnopqrstuvwxyz''"

definition tolower :: "char \<Rightarrow> char" where
  "tolower c = (case map_of (zip upper_letters lower_letters) c of Some l \<Rightarrow> l | None \<Rightarrow> c)"

definition toupper :: "char \<Rightarrow> char" where
  "toupper c = (case map_of (zip lower_letters upper_letters) c of Some u \<Rightarrow> u | None \<Rightarrow> c)"

text \<open>\<open>parseBoolean\<close>; the indexing happens only when the length is 4.\<close>

definition parseBoolean :: "string \<Rightarrow> bool" where
  "parseBoolean v =
     (if length v = 4
      then tolower (v ! 0) = CHR ''t'' \<and> tolower (v ! 1) = CHR ''r''
           \<and> tolower (v ! 2) = CHR ''u'' \<and> tolower (v ! 3) = CHR ''e''
      else False)"

text \<open>\<open>parseBlend\<close>, with the comparisons in the order of the source.\<close>

definition parseBlend :: "string \<Rightarrow> Engine \<Rightarrow> Blend \<times> Engine" where
  "parseBlend v E =
     (let upper = map toupper v
      in if upper = ''ZERO'' then (BLEND_ZERO, E)
         else if upper = ''ONE'' then (BLEND_ONE, E)
         else if upper = ''SRC_ALPHA'' then (BLEND_SRC_ALPHA, E)
         else if upper = ''ONE_MINUS_SRC_ALPHA'' then (BLEND_ONE_MINUS_SRC_ALPHA, E)
         else if upper = ''DST_ALPHA'' then (BLEND_DST_ALPHA, E)
         else if upper = ''ONE_MINUS_DST_ALPHA'' then (BLEND_ONE_MINUS_DST_ALPHA, E)
         else if upper = ''CONSTANT_ALPHA'' then (BLEND_CONSTANT_ALPHA, E)
         else if upper = ''ONE_MINUS_CONSTANT_ALPHA'' then (BLEND_ONE_MINUS_CONSTANT_ALPHA, E)
         else if upper = ''SRC_ALPHA_SATURATE'' then (BLEND_SRC_ALPHA_SATURATE, E)
         else (BLEND_ONE,
               GP_ERROR ''Unsupported blend value (%s). (Will default to BLEND_ONE if errors are treated as warnings)'' v E))"

text \<open>\<open>StateBlock::setState\<close>; name and value are strings (null pointers are outside the model).\<close>

definition setState :: "string \<Rightarrow> string \<Rightarrow> StateBlock \<Rightarrow> Engine \<Rightarrow> StateBlock \<times> Engine" where
  "setState name v sb E =
     (if name = ''blend'' then (setBlend (parseBoolean v) sb, E)
      else if name = ''blendSrc'' \<or> name = ''srcBlend''
      then (case parseBlend v E of (b, E1) \<Rightarrow> (setBlendSrc b sb, E1))
      else if name = ''blendDst'' \<or> name = ''dstBlend''
      then (case parseBlend v E of (b, E1) \<Rightarrow> (setBlendDst b sb, E1))
      else if name = ''cullFace'' then (setCullFace (parseBoolean v) sb, E)
      else if name = ''depthTest'' then (setDepthTest (parseBoolean v) sb, E)
      else if name = ''depthWrite'' then (setDepthWrite (parseBoolean v) sb, E)
      else (sb, GP_ERROR ''Unsupported render state string '%s'.'' name E))"

subsection \<open>The vocabulary in the spec's words\<close>

text \<open>The closed vocabulary of blend-factor names, in upper case.\<close>

definition blend_names :: "(string \<times> Blend) list" where
  "blend_names =
     [(''ZERO'', BLEND_ZERO),
      (''ONE'', BLEND_ONE),
      (''SRC_ALPHA'', BLEND_SRC_ALPHA),
      (''ONE_MINUS_SRC_ALPHA'', BLEND_ONE_MINUS_SRC_ALPHA),
      (''DST_ALPHA'', BLEND_DST_ALPHA),
      (''ONE_MINUS_DST_ALPHA'', BLEND_ONE_MINUS_DST_ALPHA),
      (''CONSTANT_ALPHA'', BLEND_CONSTANT_ALPHA),
      (''ONE_MINUS_CONSTANT_ALPHA'', BLEND_ONE_MINUS_CONSTANT_ALPHA),
      (''SRC_ALPHA_SATURATE'', BLEND_SRC_ALPHA_SATURATE)]"

text \<open>The setter that a recognized state name stands for, applied to a parsed value.\<close>

datatype state_key = KeyBlend | KeyBlendSrc | KeyBlendDst | KeyCullFace | KeyDepthTest | KeyDepthWrite

definition state_names :: "(string \<times> state_key) list" where
  "state_names =
     [(''blend'', KeyBlend),
      (''blendSrc'', KeyBlendSrc), (''srcBlend'', KeyBlendSrc),
      (''blendDst'', KeyBlendDst), (''dstBlend'', KeyBlendDst),
      (''cullFace'', KeyCullFace),
      (''depthTest'', KeyDepthTest),
      (''depthWrite'', KeyDepthWrite)]"

definition blend_of :: "string \<Rightarrow> Blend" where
  "blend_of v = (case map_of blend_names (map toupper v) of Some b \<Rightarrow> b | None \<Rightarrow> BLEND_ONE)"

definition is_true :: "string \<Rightarrow> bool" where
  "is_true v = (map tolower v = ''true'')"

fun key_setter :: "state_key \<Rightarrow> string \<Rightarrow> setter_call" where
  "key_setter KeyBlend v = SetBlend (is_true v)"
| "key_setter KeyBlendSrc v = SetBlendSrc (blend_of v)"
| "key_setter KeyBlendDst v = SetBlendDst (blend_of v)"
| "key_setter KeyCullFace v = SetCullFace (is_true v)"
| "key_setter KeyDepthTest v = SetDepthTest (is_true v)"
| "key_setter KeyDepthWrite v = SetDepthWrite (is_true v)"

definition takes_blend :: "state_key \<Rightarrow> bool" where
  "takes_blend k = (k = KeyBlendSrc \<or> k = KeyBlendDst)"

text \<open>What \<open>setState\<close> does, said over the two vocabularies.\<close>

definition setState_spec :: "string \<Rightarrow> string \<Rightarrow> StateBlock \<Rightarrow> Engine \<Rightarrow> StateBlock \<times> Engine" where
  "setState_spec name v sb E =
     (case map_of state_names name of
        None \<Rightarrow> (sb, emit [Error ''Unsupported render state string '%s'.'' name] E)
      | Some k \<Rightarrow>
          (apply_setter (key_setter k v) sb,
           if takes_blend k \<and> map_of blend_names (map toupper v) = None
           then emit [Error ''Unsupported blend value (%s). (Will default to BLEND_ONE if errors are treated as warnings)'' v] E
           else E))"

section \<open>The five conditionals as instances of one step\<close>

text \<open>
  For the proofs, each \<open>if\<close> statement of \<open>restore\<close> and of \<open>bindNoRestore\<close> is an
  instance of one step that is indexed by the tracked state; the lemmas
  \<open>restore_steps\<close> and \<open>bind_steps\<close> show that the instances are the functions above.
\<close>


fun rs_index :: "tracked \<Rightarrow> nat" where
  "rs_index BLEND = 0"
| "rs_index BLEND_FUNC = 1"
| "rs_index CULL_FACE = 2"
| "rs_index DEPTH_TEST = 3"
| "rs_index DEPTH_WRITE = 4"

fun reset_field :: "tracked \<Rightarrow> StateBlock \<Rightarrow> StateBlock" where
  "reset_field BLEND d = d\<lparr>blendEnabled := False\<rparr>"
| "reset_field BLEND_FUNC d = d\<lparr>blendSrc := BLEND_ONE, blendDst := BLEND_ZERO\<rparr>"
| "reset_field CULL_FACE d = d\<lparr>cullFaceEnabled := False\<rparr>"
| "reset_field DEPTH_TEST d = d\<lparr>depthTestEnabled := False\<rparr>"
| "reset_field DEPTH_WRITE d = d\<lparr>depthWriteEnabled := True\<rparr>"

fun copy_field :: "tracked \<Rightarrow> StateBlock \<Rightarrow> StateBlock \<Rightarrow> StateBlock" where
  "copy_field BLEND sb d = d\<lparr>blendEnabled := blendEnabled sb\<rparr>"
| "copy_field BLEND_FUNC sb d = d\<lparr>blendSrc := blendSrc sb, blendDst := blendDst sb\<rparr>"
| "copy_field CULL_FACE sb d = d\<lparr>cullFaceEnabled := cullFaceEnabled sb\<rparr>"
| "copy_field DEPTH_TEST sb d = d\<lparr>depthTestEnabled := depthTestEnabled sb\<rparr>"
| "copy_field DEPTH_WRITE sb d = d\<lparr>depthWriteEnabled := depthWriteEnabled sb\<rparr>"

definition restore_step :: "long \<Rightarrow> tracked \<Rightarrow> gl_step" where
  "restore_step b s = (\<lambda>(d, cs).
     if stale b d s then ((reset_field s d)\<lparr>bits := bits d AND NOT (rs_bit s)\<rparr>, cs @ [reset_call s])
     else (d, cs))"

definition bind_step :: "StateBlock \<Rightarrow> tracked \<Rightarrow> gl_step" where
  "bind_step sb s = (\<lambda>(d, cs).
     if changes sb d s then (copy_field s sb d, cs @ [set_call sb s]) else (d, cs))"

text \<open>
  The default state that \<open>restore b\<close> leaves behind when it starts from \<open>d\<close>, and the one
  that \<open>bindNoRestore\<close> of the block \<open>sb\<close> leaves behind.
\<close>

definition restored :: "long \<Rightarrow> StateBlock \<Rightarrow> StateBlock" where
  "restored b d =
     (if bits d = 0 then d else fst (fold (restore_step b) tracked_states (d, [])))"

definition bound :: "StateBlock \<Rightarrow> StateBlock \<Rightarrow> StateBlock" where
  "bound sb d =
     (let d1 = fst (fold (bind_step sb) tracked_states (d, []))
      in d1\<lparr>bits := bits d1 OR bits sb\<rparr>)"

text \<open>
  Concrete objects for the examples: an engine after \<open>initialize\<close>, a block that enables
  blending and face culling, and the engine after that block has been bound.
\<close>

definition engine0 :: Engine where
  "engine0 =
     \<lparr>defaultState = None, customAutoBindingResolvers = [],
      nodes = (\<lambda>_. \<lparr>getModel = None\<rparr>), assertsEnabled = True, log = []\<rparr>"

definition blockA :: StateBlock where
  "blockA = setCullFace True (setBlend True StateBlock_create)"

definition engineA :: Engine where
  "engineA = (initialize engine0)\<lparr>defaultState := Some blockA\<rparr>"

text \<open>
  A block tracks a state when its override bit for the state is set exactly if the
  field holds a value other than the default.
\<close>

definition tracks :: "StateBlock \<Rightarrow> tracked \<Rightarrow> bool" where
  "tracks sb s = (overrides sb s = (held sb s \<noteq> default_value s))"

text \<open>The default state after one level of a hierarchy has been bound.\<close>

definition level_bound :: "heap \<Rightarrow> addr \<Rightarrow> StateBlock \<Rightarrow> StateBlock" where
  "level_bound h a d = (case state (h a) of Some sb \<Rightarrow> bound sb d | None \<Rightarrow> d)"

text \<open>
  A hierarchy of two levels for the examples: the parent enables face culling, the child
  (address 0, parent at address 1) calls \<open>setCullFace(false)\<close> on its own block.
\<close>

definition cull_parent :: RenderState where
  "cull_parent = RenderState_create\<lparr>state := Some (setCullFace True StateBlock_create)\<rparr>"

definition cull_child :: RenderState where
  "cull_child =
     RenderState_create\<lparr>state := Some (setCullFace False StateBlock_create), parent := Some 1\<rparr>"

definition cull_heap :: heap where
  "cull_heap = (\<lambda>a. if a = 0 then cull_child else cull_parent)"

definition pass0 :: Pass where
  "pass0 = \<lparr>getEffect = 7\<rparr>"

text \<open>The value that the block of a RenderState holds for a tracked state.\<close>

definition block_value :: "RenderState \<Rightarrow> tracked \<Rightarrow> state_value option" where
  "block_value r s = (case state r of Some sb \<Rightarrow> Some (held sb s) | None \<Rightarrow> None)"

text \<open>
  For the examples: a custom resolver that handles the name \<open>TIME\<close> and nothing else, the
  engine with it registered, and a RenderState bound to the node at address 3, which has
  no model.
\<close>

definition time_resolver :: ResolveAutoBindingCallback where
  "time_resolver ab node p =
     (if ab = Some ''TIME'' then (True, p\<lparr>held_value := Literal 1\<rparr>) else (False, p))"

definition engineT :: Engine where
  "engineT = registerAutoBindingResolver time_resolver (initialize engine0)"

definition rs_node :: RenderState where
  "rs_node = RenderState_create\<lparr>nodeBinding := Some 3\<rparr>"

definition param_u :: "ParameterValue \<Rightarrow> MaterialParameter" where
  "param_u v = \<lparr>getName = ''u'', held_value = v\<rparr>"

text \<open>The log entry of applying one recorded auto-binding against a node.\<close>

definition application :: "addr \<Rightarrow> string \<times> string \<Rightarrow> event" where
  "application n kv = ApplyAutoBinding (fst kv) (Some (snd kv)) (Some n)"

text \<open>A RenderState bound to the node at address 3 with one recorded auto-binding.\<close>

definition rs_bound :: RenderState where
  "rs_bound = rs_node\<lparr>autoBindings := [(''u'', ''WORLD_MATRIX'')]\<rparr>"

definition engineR :: Engine where
  "engineR = (initialize engine0)\<lparr>assertsEnabled := False\<rparr>"

text \<open>
  For the examples: a resolver that declines everything, the engine with it registered,
  and a RenderState without a node binding that has two auto-bindings recorded.
\<close>

definition idle_resolver :: ResolveAutoBindingCallback where
  "idle_resolver ab node p = (False, p)"

definition engineI :: Engine where
  "engineI = registerAutoBindingResolver idle_resolver (initialize engine0)"

definition rs_two :: RenderState where
  "rs_two =
     RenderState_create\<lparr>autoBindings := [(''u'', ''WORLD_MATRIX''), (''v'', ''VIEW_MATRIX'')]\<rparr>"

definition param_v :: "ParameterValue \<Rightarrow> MaterialParameter" where
  "param_v x = \<lparr>getName = ''v'', held_value = x\<rparr>"

section \<open>Properties of StateBlock\<close>

subsection \<open>Bits and steps\<close>

lemma RS_pow:
  "RS_BLEND = 2 ^ 0" "RS_BLEND_FUNC = 2 ^ 1" "RS_CULL_FACE = 2 ^ 2"
  "RS_DEPTH_TEST = 2 ^ 3" "RS_DEPTH_WRITE = 2 ^ 4"
  by (simp_all add: RS_BLEND_def RS_BLEND_FUNC_def RS_CULL_FACE_def RS_DEPTH_TEST_def RS_DEPTH_WRITE_def)

lemma rs_bit_pow: "rs_bit s = 2 ^ rs_index s"
  by (cases s) (simp_all add: RS_pow)

lemma rs_index_less: "rs_index s < 64"
  by (cases s) simp_all

lemma rs_index_inj: "(rs_index s = rs_index t) = (s = t)"
  by (cases s; cases t) simp_all

lemma test_rs_bit: "(x AND rs_bit s = 0) = (\<not> bit x (rs_index s))" for x :: long
  unfolding rs_bit_pow by (rule and_exp_eq_0_iff_not_bit)

lemma overrides_bit: "overrides sb s = bit (bits sb) (rs_index s)"
  by (simp add: overrides_def test_rs_bit)

lemma stale_bit: "stale b d s = (bit (bits d) (rs_index s) \<and> \<not> bit b (rs_index s))"
  by (simp add: stale_def overrides_bit test_rs_bit)

lemma bit_clear_rs: "bit (x AND NOT (rs_bit s)) n = (bit x n \<and> n \<noteq> rs_index s)" for x :: long
  unfolding rs_bit_pow by (auto simp add: bit_simps dest: bit_imp_possible_bit)

lemma restore_steps:
  "restore_blend b = restore_step b BLEND"
  "restore_blend_func b = restore_step b BLEND_FUNC"
  "restore_cull_face b = restore_step b CULL_FACE"
  "restore_depth_test b = restore_step b DEPTH_TEST"
  "restore_depth_write b = restore_step b DEPTH_WRITE"
  by (simp_all add: fun_eq_iff restore_blend_def restore_blend_func_def restore_cull_face_def
      restore_depth_test_def restore_depth_write_def restore_step_def stale_def overrides_def)

lemma bind_steps:
  "bind_blend sb = bind_step sb BLEND"
  "bind_blend_func sb = bind_step sb BLEND_FUNC"
  "bind_cull_face sb = bind_step sb CULL_FACE"
  "bind_depth_test sb = bind_step sb DEPTH_TEST"
  "bind_depth_write sb = bind_step sb DEPTH_WRITE"
  by (simp_all add: fun_eq_iff bind_blend_def bind_blend_func_def bind_cull_face_def
      bind_depth_test_def bind_depth_write_def bind_step_def changes_def overrides_def)

lemma held_bits_update: "held (d\<lparr>bits := x\<rparr>) s = held d s"
  by (cases s) simp_all

lemma held_reset_field: "held (reset_field s d) t = (if t = s then default_value s else held d t)"
  by (cases s; cases t) simp_all

lemma bits_reset_field: "bits (reset_field s d) = bits d"
  by (cases s) simp_all

lemma held_copy_field: "held (copy_field s sb d) t = (if t = s then held sb s else held d t)"
  by (cases s; cases t) simp_all

lemma bits_copy_field: "bits (copy_field s sb d) = bits d"
  by (cases s) simp_all


lemma restore_step_calls:
  "snd (restore_step b s (d, cs)) = cs @ (if stale b d s then [reset_call s] else [])"
  by (simp add: restore_step_def)

lemma restore_step_held:
  "held (fst (restore_step b s (d, cs))) t = (if t = s \<and> stale b d s then default_value s else held d t)"
  by (simp add: restore_step_def held_bits_update held_reset_field)

lemma restore_step_bits:
  "bit (bits (fst (restore_step b s (d, cs)))) n = (bit (bits d) n \<and> \<not> (n = rs_index s \<and> stale b d s))"
  by (auto simp add: restore_step_def bit_clear_rs)

lemma restore_step_stale:
  "t \<noteq> s \<Longrightarrow> stale b (fst (restore_step b s (d, cs))) t = stale b d t"
  by (simp add: stale_bit restore_step_bits rs_index_inj)

lemma restore_fold:
  "distinct ss \<Longrightarrow> fold (restore_step b) ss (d, cs) = (d', cs') \<Longrightarrow>
     cs' = cs @ map reset_call (filter (stale b d) ss) \<and>
     (\<forall>t. held d' t = (if t \<in> set ss \<and> stale b d t then default_value t else held d t)) \<and>
     (\<forall>n. bit (bits d') n = (bit (bits d) n \<and> \<not> (\<exists>t \<in> set ss. n = rs_index t \<and> stale b d t)))"
proof (induction ss arbitrary: d cs)
  case Nil
  then show ?case by simp
next
  case (Cons s ss)
  obtain d1 cs1 where step: "restore_step b s (d, cs) = (d1, cs1)"
    by (cases "restore_step b s (d, cs)")
  have cs1: "cs1 = cs @ (if stale b d s then [reset_call s] else [])"
    using restore_step_calls [of b s d cs] step by simp
  have held1: "\<And>t. held d1 t = (if t = s \<and> stale b d s then default_value s else held d t)"
    using restore_step_held [of b s d cs] step by simp
  have bits1: "\<And>n. bit (bits d1) n = (bit (bits d) n \<and> \<not> (n = rs_index s \<and> stale b d s))"
    using restore_step_bits [of b s d cs] step by simp
  have stale1: "\<And>t. t \<in> set ss \<Longrightarrow> stale b d1 t = stale b d t"
  proof -
    fix t assume "t \<in> set ss"
    with Cons.prems(1) have "t \<noteq> s" by auto
    then show "stale b d1 t = stale b d t"
      using restore_step_stale [of t s b d cs] step by simp
  qed
  have filt: "filter (stale b d1) ss = filter (stale b d) ss"
    by (rule filter_cong) (simp_all add: stale1)
  from Cons.prems have rest: "fold (restore_step b) ss (d1, cs1) = (d', cs')" and dist: "distinct ss"
    by (simp_all add: step)
  note IH = Cons.IH [OF dist rest]
  from IH have c: "cs' = cs1 @ map reset_call (filter (stale b d1) ss)" by blast
  from IH have h: "\<And>t. held d' t = (if t \<in> set ss \<and> stale b d1 t then default_value t else held d1 t)" by blast
  from IH have bt: "\<And>n. bit (bits d') n = (bit (bits d1) n \<and> \<not> (\<exists>t \<in> set ss. n = rs_index t \<and> stale b d1 t))" by blast
  have "cs' = cs @ map reset_call (filter (stale b d) (s # ss))"
    by (simp add: c cs1 filt)
  moreover have "\<forall>t. held d' t = (if t \<in> set (s # ss) \<and> stale b d t then default_value t else held d t)"
    using stale1 by (auto simp add: h held1)
  moreover have "\<forall>n. bit (bits d') n = (bit (bits d) n \<and> \<not> (\<exists>t \<in> set (s # ss). n = rs_index t \<and> stale b d t))"
    using stale1 by (auto simp add: bt bits1)
  ultimately show ?case by blast
qed

lemma restore_fold_id:
  "\<forall>s \<in> set ss. \<not> stale b d s \<Longrightarrow> fold (restore_step b) ss (d, cs) = (d, cs)"
  by (induction ss) (simp_all add: restore_step_def)

lemma restore_as_fold:
  "restore b E =
     (case defaultState E of
        None \<Rightarrow> Inl (null_default_state E)
      | Some d \<Rightarrow>
          if bits d = 0 then Inr E
          else Inr (emit (map GL (snd (fold (restore_step b) tracked_states (d, []))))
                 (E\<lparr>defaultState := Some (fst (fold (restore_step b) tracked_states (d, [])))\<rparr>)))"
  by (simp add: restore_def restore_steps tracked_states_def Let_def split_beta split: option.split)

lemma distinct_tracked: "distinct tracked_states"
  by (simp add: tracked_states_def)

lemma set_tracked: "s \<in> set tracked_states"
  by (cases s) (simp_all add: tracked_states_def)

lemma zero_no_stale: "bits d = 0 \<Longrightarrow> \<not> stale b d s"
  by (simp add: stale_bit)

lemma bind_step_calls:
  "snd (bind_step sb s (d, cs)) = cs @ (if changes sb d s then [set_call sb s] else [])"
  by (simp add: bind_step_def)

lemma bind_step_held:
  "held (fst (bind_step sb s (d, cs))) t = (if t = s \<and> changes sb d s then held sb s else held d t)"
  by (simp add: bind_step_def held_copy_field)

lemma bind_step_bits: "bits (fst (bind_step sb s (d, cs))) = bits d"
  by (simp add: bind_step_def bits_copy_field)

lemma bind_step_changes:
  "t \<noteq> s \<Longrightarrow> changes sb (fst (bind_step sb s (d, cs))) t = changes sb d t"
  by (simp add: changes_def bind_step_held)

lemma bind_fold:
  "distinct ss \<Longrightarrow> fold (bind_step sb) ss (d, cs) = (d', cs') \<Longrightarrow>
     cs' = cs @ map (set_call sb) (filter (changes sb d) ss) \<and>
     (\<forall>t. held d' t = (if t \<in> set ss \<and> changes sb d t then held sb t else held d t)) \<and>
     bits d' = bits d"
proof (induction ss arbitrary: d cs)
  case Nil
  then show ?case by simp
next
  case (Cons s ss)
  obtain d1 cs1 where step: "bind_step sb s (d, cs) = (d1, cs1)"
    by (cases "bind_step sb s (d, cs)")
  have cs1: "cs1 = cs @ (if changes sb d s then [set_call sb s] else [])"
    using bind_step_calls [of sb s d cs] step by simp
  have held1: "\<And>t. held d1 t = (if t = s \<and> changes sb d s then held sb s else held d t)"
    using bind_step_held [of sb s d cs] step by simp
  have bits1: "bits d1 = bits d"
    using bind_step_bits [of sb s d cs] step by simp
  have ch1: "\<And>t. t \<in> set ss \<Longrightarrow> changes sb d1 t = changes sb d t"
  proof -
    fix t assume "t \<in> set ss"
    with Cons.prems(1) have "t \<noteq> s" by auto
    then show "changes sb d1 t = changes sb d t"
      using bind_step_changes [of t s sb d cs] step by simp
  qed
  have filt: "filter (changes sb d1) ss = filter (changes sb d) ss"
    by (rule filter_cong) (simp_all add: ch1)
  from Cons.prems have rest: "fold (bind_step sb) ss (d1, cs1) = (d', cs')" and dist: "distinct ss"
    by (simp_all add: step)
  note IH = Cons.IH [OF dist rest]
  from IH have c: "cs' = cs1 @ map (set_call sb) (filter (changes sb d1) ss)" by blast
  from IH have h: "\<And>t. held d' t = (if t \<in> set ss \<and> changes sb d1 t then held sb t else held d1 t)" by blast
  from IH have bt: "bits d' = bits d1" by blast
  have "cs' = cs @ map (set_call sb) (filter (changes sb d) (s # ss))"
    by (simp add: c cs1 filt)
  moreover have "\<forall>t. held d' t = (if t \<in> set (s # ss) \<and> changes sb d t then held sb t else held d t)"
    using ch1 by (auto simp add: h held1)
  moreover have "bits d' = bits d"
    by (simp add: bt bits1)
  ultimately show ?case by blast
qed

lemma bind_fold_id:
  "\<forall>s \<in> set ss. \<not> changes sb d s \<Longrightarrow> fold (bind_step sb) ss (d, cs) = (d, cs)"
  by (induction ss) (simp_all add: bind_step_def)

lemma bindNoRestore_as_fold:
  "bindNoRestore sb E =
     (case defaultState E of
        None \<Rightarrow> Inl (null_default_state E)
      | Some d \<Rightarrow>
          Inr (emit (map GL (snd (fold (bind_step sb) tracked_states (d, []))))
                 (E\<lparr>defaultState := Some ((fst (fold (bind_step sb) tracked_states (d, [])))
                       \<lparr>bits := bits (fst (fold (bind_step sb) tracked_states (d, []))) OR bits sb\<rparr>)\<rparr>)))"
  by (simp add: bindNoRestore_def bind_steps tracked_states_def Let_def split_beta split: option.split)

subsection \<open>What restore and bindNoRestore leave behind\<close>

lemma restore_Some:
  assumes "defaultState E = Some d"
  shows "restore b E =
           Inr (E\<lparr>defaultState := Some (restored b d),
                  log := log E @ map (GL \<circ> reset_call) (filter (stale b d) tracked_states)\<rparr>)"
proof (cases "bits d = 0")
  case True
  have "filter (stale b d) tracked_states = []"
    using True by (simp add: zero_no_stale)
  moreover have "restore b E = Inr E"
    using assms True by (simp add: restore_def)
  moreover have "E\<lparr>defaultState := Some d, log := log E @ []\<rparr> = E"
    using assms by simp
  ultimately show ?thesis
    using True by (simp add: restored_def)
next
  case False
  obtain d' cs' where run: "fold (restore_step b) tracked_states (d, []) = (d', cs')"
    by (cases "fold (restore_step b) tracked_states (d, [])")
  from restore_fold [OF distinct_tracked run]
  have "cs' = map reset_call (filter (stale b d) tracked_states)" by simp
  then show ?thesis
    using assms False by (simp add: restore_as_fold run emit_def restored_def)
qed

lemma held_restored: "held (restored b d) s = (if stale b d s then default_value s else held d s)"
proof (cases "bits d = 0")
  case True
  then show ?thesis by (simp add: restored_def zero_no_stale)
next
  case False
  obtain d' cs' where run: "fold (restore_step b) tracked_states (d, []) = (d', cs')"
    by (cases "fold (restore_step b) tracked_states (d, [])")
  from restore_fold [OF distinct_tracked run]
  have "held d' s = (if s \<in> set tracked_states \<and> stale b d s then default_value s else held d s)"
    by blast
  then show ?thesis
    using False by (simp add: restored_def run set_tracked)
qed

lemma bit_restored:
  "bit (bits (restored b d)) n = (bit (bits d) n \<and> \<not> (\<exists>t. n = rs_index t \<and> stale b d t))"
proof (cases "bits d = 0")
  case True
  then show ?thesis by (simp add: restored_def)
next
  case False
  obtain d' cs' where run: "fold (restore_step b) tracked_states (d, []) = (d', cs')"
    by (cases "fold (restore_step b) tracked_states (d, [])")
  from restore_fold [OF distinct_tracked run]
  have "bit (bits d') n = (bit (bits d) n \<and> \<not> (\<exists>t \<in> set tracked_states. n = rs_index t \<and> stale b d t))"
    by blast
  then show ?thesis
    using False set_tracked by (auto simp add: restored_def run)
qed

lemma overrides_restored: "overrides (restored b d) s = (overrides d s \<and> \<not> stale b d s)"
  by (auto simp add: overrides_bit bit_restored rs_index_inj)

lemma restored_id: "\<forall>s. \<not> stale b d s \<Longrightarrow> restored b d = d"
  by (simp add: restored_def restore_fold_id)

lemma bindNoRestore_Some:
  assumes "defaultState E = Some d"
  shows "bindNoRestore sb E =
           Inr (E\<lparr>defaultState := Some (bound sb d),
                  log := log E @ map (GL \<circ> set_call sb) (filter (changes sb d) tracked_states)\<rparr>)"
proof -
  obtain d1 cs1 where run: "fold (bind_step sb) tracked_states (d, []) = (d1, cs1)"
    by (cases "fold (bind_step sb) tracked_states (d, [])")
  from bind_fold [OF distinct_tracked run]
  have "cs1 = map (set_call sb) (filter (changes sb d) tracked_states)" by simp
  then show ?thesis
    using assms by (simp add: bindNoRestore_as_fold run emit_def bound_def)
qed

lemma held_bound: "held (bound sb d) s = (if changes sb d s then held sb s else held d s)"
proof -
  obtain d1 cs1 where run: "fold (bind_step sb) tracked_states (d, []) = (d1, cs1)"
    by (cases "fold (bind_step sb) tracked_states (d, [])")
  from bind_fold [OF distinct_tracked run]
  have "held d1 s = (if s \<in> set tracked_states \<and> changes sb d s then held sb s else held d s)"
    by blast
  then show ?thesis
    by (simp add: bound_def run set_tracked held_bits_update)
qed

lemma held_bound_overrides:
  "held (bound sb d) s = (if overrides sb s then held sb s else held d s)"
  by (auto simp add: held_bound changes_def)

lemma bits_bound: "bits (bound sb d) = bits d OR bits sb"
proof -
  obtain d1 cs1 where run: "fold (bind_step sb) tracked_states (d, []) = (d1, cs1)"
    by (cases "fold (bind_step sb) tracked_states (d, [])")
  from bind_fold [OF distinct_tracked run] have "bits d1 = bits d" by blast
  then show ?thesis by (simp add: bound_def run)
qed

lemma bound_id: "\<forall>s. \<not> changes sb d s \<Longrightarrow> bound sb d = d\<lparr>bits := bits d OR bits sb\<rparr>"
  by (simp add: bound_def bind_fold_id)

lemma bit_after_bind:
  "bit (bits (bound sb (restored (bits sb) d))) (rs_index s) = bit (bits sb) (rs_index s)"
  by (auto simp add: bits_bound bit_simps bit_restored stale_bit rs_index_inj)

lemma no_stale_after_bind: "\<not> stale (bits sb) (bound sb (restored (bits sb) d)) s"
  unfolding stale_bit bit_after_bind by simp

lemma no_changes_after_bound: "\<not> changes sb (bound sb d) s"
  by (simp add: changes_def held_bound_overrides)

lemma rebind_id:
  "bound sb (restored (bits sb) (bound sb d1)) = bound sb d1" if "d1 = restored (bits sb) d"
proof -
  let ?d2 = "bound sb d1"
  have r: "restored (bits sb) ?d2 = ?d2"
    using that by (simp add: restored_id no_stale_after_bind)
  have "bound sb ?d2 = ?d2\<lparr>bits := bits ?d2 OR bits sb\<rparr>"
    by (simp add: bound_id no_changes_after_bound)
  also have "bits ?d2 OR bits sb = bits ?d2"
    by (simp add: bits_bound or.assoc)
  finally show ?thesis by (simp add: r)
qed

subsection \<open>The examples evaluated\<close>

lemma blockA_simps:
  "bits blockA = 5" "blendEnabled blockA" "cullFaceEnabled blockA"
  "\<not> depthTestEnabled blockA" "\<not> depthWriteEnabled blockA"
  "blendSrc blockA = BLEND_ONE" "blendDst blockA = BLEND_ZERO"
  by (simp_all add: blockA_def setCullFace_def setBlend_def StateBlock_create_def
      RS_BLEND_def RS_CULL_FACE_def)

lemma stale_blockA: "filter (stale RS_BLEND blockA) tracked_states = [CULL_FACE]"
  by (simp add: tracked_states_def stale_def overrides_def blockA_simps
      RS_BLEND_def RS_BLEND_FUNC_def RS_CULL_FACE_def RS_DEPTH_TEST_def RS_DEPTH_WRITE_def)

lemma changes_blockA:
  "filter (changes blockA StateBlock_create) tracked_states = [BLEND, CULL_FACE]"
  by (simp add: tracked_states_def changes_def overrides_def blockA_simps StateBlock_create_def
      RS_BLEND_def RS_BLEND_FUNC_def RS_CULL_FACE_def RS_DEPTH_TEST_def RS_DEPTH_WRITE_def)

lemma defaultState_engineA: "defaultState engineA = Some blockA"
  by (simp add: engineA_def)

lemma defaultState_initialize: "defaultState (initialize engine0) = Some StateBlock_create"
  by (simp add: initialize_def engine0_def)

subsection \<open>The setters and the override bits\<close>

lemma bit_set_rs: "bit (x OR rs_bit s) n = (bit x n \<or> n = rs_index s)" for x :: long
  unfolding rs_bit_pow using rs_index_less [of s] by (auto simp add: bit_simps)

lemma rs_bit_unfold:
  "RS_BLEND = rs_bit BLEND" "RS_BLEND_FUNC = rs_bit BLEND_FUNC" "RS_CULL_FACE = rs_bit CULL_FACE"
  "RS_DEPTH_TEST = rs_bit DEPTH_TEST" "RS_DEPTH_WRITE = rs_bit DEPTH_WRITE"
  by simp_all

lemma tracks_setter:
  "tracks sb s \<or> (s = DEPTH_WRITE \<and> (\<exists>b. c = SetDepthWrite b)) \<Longrightarrow> tracks (apply_setter c sb) s"
  by (cases c; cases s)
    (simp_all add: tracks_def overrides_bit setBlend_def setBlendSrc_def setBlendDst_def
      setCullFace_def setDepthTest_def setDepthWrite_def Let_def rs_bit_unfold bit_set_rs
      bit_clear_rs del: rs_bit.simps)

lemma tracks_setters: "tracks sb s \<Longrightarrow> tracks (apply_setters cs sb) s"
  by (induction cs arbitrary: sb) (simp_all add: tracks_setter)

text \<open>
  Every state but depth writing is tracked by a block from its creation on, whatever
  setters are called; depth writing is tracked once \<open>setDepthWrite\<close> has been called.
\<close>

lemma setters_track_all_but_depth_write:
  "s \<noteq> DEPTH_WRITE \<Longrightarrow> tracks (apply_setters cs StateBlock_create) s"
  by (rule tracks_setters) (cases s; simp add: tracks_def overrides_def StateBlock_create_def)

lemma setters_track_depth_write_once_set:
  "SetDepthWrite b \<in> set cs \<Longrightarrow> tracks (apply_setters cs sb) DEPTH_WRITE"
proof (induction cs arbitrary: sb)
  case Nil
  then show ?case by simp
next
  case (Cons c cs)
  show ?case
  proof (cases "c = SetDepthWrite b")
    case True
    have "tracks (apply_setter c sb) DEPTH_WRITE"
      by (rule tracks_setter) (simp add: True)
    then show ?thesis by (simp add: tracks_setters)
  next
    case False
    with Cons.prems have "SetDepthWrite b \<in> set cs" by simp
    then show ?thesis by (simp add: Cons.IH)
  qed
qed

lemma blockA_cases:
  "stale RS_BLEND blockA CULL_FACE" "\<not> stale RS_BLEND blockA BLEND" "overrides blockA BLEND"
  "changes blockA StateBlock_create BLEND" "\<not> changes blockA StateBlock_create DEPTH_TEST"
  by (simp_all add: stale_def changes_def overrides_def blockA_simps StateBlock_create_def
      RS_BLEND_def RS_CULL_FACE_def RS_DEPTH_TEST_def)

section \<open>Properties of the hierarchy walk\<close>

lemma ancestor_bits_None: "ancestor_bits h None acc = Some acc"
  by (subst ancestor_bits.simps) simp

lemma ancestor_bits_Some:
  "ancestor_bits h (Some a) acc =
     ancestor_bits h (parent (h a)) (case state (h a) of Some sb \<Rightarrow> acc OR bits sb | None \<Rightarrow> acc)"
  by (subst ancestor_bits.simps) simp

lemma getTopmost_loop_None: "getTopmost_loop h None below = Some None"
  by (subst getTopmost_loop.simps) simp

lemma getTopmost_loop_Some:
  "getTopmost_loop h (Some a) below =
     (if parent (h a) = below \<or> parent (h a) = None then Some (Some a)
      else getTopmost_loop h (parent (h a)) below)"
  by (subst getTopmost_loop.simps) simp

lemma ancestry_hd: "ancestry h a as \<Longrightarrow> \<exists>xs. as = a # xs"
  by (induction h a as rule: ancestry.induct) simp_all

lemma ancestry_Cons:
  "ancestry h a (x # xs) =
     (x = a \<and> (if xs = [] then parent (h a) = None
               else parent (h a) = Some (hd xs) \<and> ancestry h (hd xs) xs))"
  by (cases xs) auto

lemma ancestry_unique: "ancestry h a xs \<Longrightarrow> ancestry h a ys \<Longrightarrow> xs = ys"
proof (induction xs arbitrary: a ys)
  case Nil
  then show ?case by simp
next
  case (Cons x xs)
  from Cons.prems(2) obtain y ys' where ys: "ys = y # ys'"
    by (cases ys) auto
  show ?case
  proof (cases "xs = []")
    case True
    with Cons.prems ys show ?thesis
      by (auto simp add: ancestry_Cons split: if_splits)
  next
    case False
    with Cons.prems ys have ne: "ys' \<noteq> []" and hd: "hd ys' = hd xs"
      and a1: "ancestry h (hd xs) xs" and a2: "ancestry h (hd xs) ys'" and xy: "x = y"
      by (auto simp add: ancestry_Cons split: if_splits)
    from Cons.IH [OF a1 a2] xy ys show ?thesis by simp
  qed
qed

lemma ancestry_suffix:
  "ancestry h a (xs @ y # ys) \<Longrightarrow> ancestry h y (y # ys)"
proof (induction xs arbitrary: a)
  case Nil
  then show ?case by (simp add: ancestry_Cons)
next
  case (Cons x xs)
  then show ?case
    by (cases xs) (auto simp add: ancestry_Cons split: if_splits)
qed

lemma ancestry_distinct: "ancestry h a as \<Longrightarrow> distinct as"
proof (induction as arbitrary: a)
  case Nil
  then show ?case by simp
next
  case (Cons x xs)
  show ?case
  proof (cases "xs = []")
    case True
    then show ?thesis by simp
  next
    case False
    with Cons.prems have tl: "ancestry h (hd xs) xs" and xa: "x = a"
      by (auto simp add: ancestry_Cons)
    have "x \<notin> set xs"
    proof
      assume "x \<in> set xs"
      then obtain us vs where split: "xs = us @ x # vs"
        by (auto simp add: in_set_conv_decomp)
      with tl have "ancestry h x (x # vs)"
        using ancestry_suffix by blast
      with Cons.prems xa have "x # vs = x # xs"
        using ancestry_unique by blast
      with split show False by simp
    qed
    with Cons.IH [OF tl] show ?thesis by simp
  qed
qed

lemma ancestor_bits_chain:
  "ancestry h a as \<Longrightarrow>
   ancestor_bits h (Some a) acc =
     Some (fold (\<lambda>a acc. case state (h a) of Some sb \<Rightarrow> acc OR bits sb | None \<Rightarrow> acc) as acc)"
proof (induction as arbitrary: a acc)
  case Nil
  then show ?case by simp
next
  case (Cons x xs)
  show ?case
  proof (cases "xs = []")
    case True
    with Cons.prems show ?thesis
      by (simp add: ancestor_bits_Some ancestor_bits_None)
  next
    case False
    with Cons.prems have xa: "x = a" and p: "parent (h a) = Some (hd xs)"
      and tl: "ancestry h (hd xs) xs"
      by (auto simp add: ancestry_Cons)
    show ?thesis
      by (subst ancestor_bits_Some) (simp add: p Cons.IH [OF tl] xa)
  qed
qed

lemma ancestor_bits_this:
  assumes "ancestry h this as"
  shows "ancestor_bits h (parent (h this)) (case state (h this) of Some sb \<Rightarrow> bits sb | None \<Rightarrow> 0)
         = Some (union_bits h as)"
proof -
  from assms obtain xs where as: "as = this # xs"
    using ancestry_hd by blast
  have init: "(case state (h this) of Some sb \<Rightarrow> bits sb | None \<Rightarrow> 0)
              = (case state (h this) of Some sb \<Rightarrow> 0 OR bits sb | None \<Rightarrow> 0)"
    by (simp split: option.split)
  show ?thesis
  proof (cases "xs = []")
    case True
    with assms as show ?thesis
      by (simp add: ancestor_bits_None union_bits_def split: option.split)
  next
    case False
    with assms as have p: "parent (h this) = Some (hd xs)" and tl: "ancestry h (hd xs) xs"
      by (auto simp add: ancestry_Cons)
    show ?thesis
      unfolding p ancestor_bits_chain [OF tl] union_bits_def as
      by (simp split: option.split)
  qed
qed

lemma getTopmost_loop_root:
  "ancestry h a as \<Longrightarrow> getTopmost_loop h (Some a) None = Some (Some (last as))"
proof (induction as arbitrary: a)
  case Nil
  then show ?case by simp
next
  case (Cons x xs)
  show ?case
  proof (cases "xs = []")
    case True
    with Cons.prems show ?thesis
      by (simp add: getTopmost_loop_Some)
  next
    case False
    with Cons.prems have xa: "x = a" and p: "parent (h a) = Some (hd xs)"
      and tl: "ancestry h (hd xs) xs"
      by (auto simp add: ancestry_Cons)
    show ?thesis
      using False by (subst getTopmost_loop_Some) (simp add: p Cons.IH [OF tl])
  qed
qed

lemma getTopmost_loop_below:
  "ancestry h a (xs @ x # y # ys) \<Longrightarrow> getTopmost_loop h (Some a) (Some y) = Some (Some x)"
proof (induction xs arbitrary: a)
  case Nil
  then show ?case by (simp add: getTopmost_loop_Some)
next
  case (Cons z zs)
  let ?rest = "zs @ x # y # ys"
  from Cons.prems have za: "z = a" and p: "parent (h a) = Some (hd ?rest)"
    and tl: "ancestry h (hd ?rest) ?rest"
    by (auto simp add: ancestry_Cons)
  from ancestry_distinct [OF tl] have "hd ?rest \<noteq> y"
    by (cases zs) auto
  then show ?case
    by (subst getTopmost_loop_Some) (simp add: p Cons.IH [OF tl])
qed

lemma getTopmost_root:
  "ancestry h this as \<Longrightarrow> getTopmost h this None = Some (Some (last as))"
  by (simp add: getTopmost_def getTopmost_loop_root)

lemma getTopmost_self: "getTopmost h this (Some this) = Some None"
  by (simp add: getTopmost_def)

lemma getTopmost_below:
  assumes "ancestry h this (xs @ x # y # ys)"
  shows "getTopmost h this (Some y) = Some (Some x)"
proof -
  from assms have "this = hd (xs @ [x])"
    using ancestry_hd [OF assms] by (cases xs) auto
  moreover from ancestry_distinct [OF assms] have "y \<notin> set (xs @ [x])" by auto
  ultimately have "this \<noteq> y"
    by (metis hd_in_set snoc_eq_iff_butlast)
  then show ?thesis
    by (simp add: getTopmost_def getTopmost_loop_below [OF assms])
qed

lemma bind_walk_chain:
  "ancestry h this (xs @ ys) \<Longrightarrow> rs = (if ys = [] then None else Some (hd ys)) \<Longrightarrow>
   bind_walk h this effect rs E = Some (bind_levels h effect (rev xs) E)"
proof (induction xs arbitrary: ys rs E rule: rev_induct)
  case Nil
  then have "ys \<noteq> []" and "hd ys = this"
    using ancestry_hd by fastforce+
  with Nil.prems show ?case
    by (subst bind_walk.simps) (simp add: getTopmost_self)
next
  case (snoc x xs)
  have top: "getTopmost h this rs = Some (Some x)"
  proof (cases ys)
    case Nil
    with snoc.prems show ?thesis
      using getTopmost_root [of h this "xs @ [x]"] by simp
  next
    case (Cons y ys')
    with snoc.prems show ?thesis
      using getTopmost_below [of h this xs x y ys'] by simp
  qed
  have chain: "ancestry h this (xs @ (x # ys))"
    using snoc.prems(1) by simp
  have next_walk: "\<And>E1. bind_walk h this effect (Some x) E1 = Some (bind_levels h effect (rev xs) E1)"
    by (rule snoc.IH [OF chain]) simp
  show ?case
    by (subst bind_walk.simps) (simp add: top next_walk split: sum.split)
qed

lemma RenderState_bind_chain:
  assumes "ancestry h this as"
  shows "RenderState_bind h this pass E = Some (bind_top_down h as (getEffect pass) E)"
proof -
  have walk: "\<And>E1. bind_walk h this (getEffect pass) None E1
                  = Some (bind_levels h (getEffect pass) (rev as) E1)"
    using bind_walk_chain [of h this as "[]" None] assms by simp
  show ?thesis
    by (simp add: RenderState_bind_def ancestor_bits_this [OF assms] bind_top_down_def walk
        split: sum.split)
qed

lemma defaultState_bind_parameters:
  "defaultState (bind_parameters ps effect E) = defaultState E"
  by (induction ps arbitrary: E) (simp_all add: MaterialParameter_bind_def emit_def)

lemma bind_level_Some:
  assumes "defaultState E = Some d"
  shows "\<exists>E'. bind_level h effect a E = Inr E' \<and> defaultState E' = Some (level_bound h a d)"
proof (cases "state (h a)")
  case None
  with assms show ?thesis
    by (simp add: bind_level_def level_bound_def defaultState_bind_parameters)
next
  case (Some sb)
  have "defaultState (bind_parameters (parameters (h a)) effect E) = Some d"
    using assms by (simp add: defaultState_bind_parameters)
  from bindNoRestore_Some [OF this, of sb] Some show ?thesis
    by (simp add: bind_level_def level_bound_def)
qed

lemma bind_levels_Some:
  "defaultState E = Some d \<Longrightarrow>
   \<exists>E'. bind_levels h effect ls E = Inr E' \<and> defaultState E' = Some (fold (level_bound h) ls d)"
proof (induction ls arbitrary: E d)
  case Nil
  then show ?case by simp
next
  case (Cons a ls)
  from bind_level_Some [OF Cons.prems, of h effect a]
  obtain E1 where l: "bind_level h effect a E = Inr E1"
    and d1: "defaultState E1 = Some (level_bound h a d)" by blast
  from Cons.IH [OF d1] l show ?case by simp
qed

lemma held_level_bound:
  "held (level_bound h a d) s =
     (case state (h a) of
        Some sb \<Rightarrow> if overrides sb s then held sb s else held d s
      | None \<Rightarrow> held d s)"
  by (simp add: level_bound_def held_bound_overrides split: option.split)

lemma held_nearest_override:
  "nearest_override h as s = Some sb \<Longrightarrow> held (foldr (level_bound h) as d) s = held sb s"
  by (induction as) (auto simp add: held_level_bound split: option.splits if_splits)

lemma bind_top_down_Some:
  assumes "defaultState E = Some d"
  shows "\<exists>E'. bind_top_down h as effect E = Inr E'
           \<and> defaultState E' = Some (foldr (level_bound h) as (restored (union_bits h as) d))"
proof -
  let ?E1 = "E\<lparr>defaultState := Some (restored (union_bits h as) d),
       log := log E @ map (GL \<circ> reset_call) (filter (stale (union_bits h as) d) tracked_states)\<rparr>"
  have r: "restore (union_bits h as) E = Inr ?E1"
    by (rule restore_Some [OF assms])
  have d1: "defaultState ?E1 = Some (restored (union_bits h as) d)" by simp
  from bind_levels_Some [OF d1, of h effect "rev as"] r show ?thesis
    by (simp add: bind_top_down_def foldr_conv_fold)
qed

lemma bind_decided_by_nearest_override:
  assumes "ancestry h this as" and "defaultState E = Some d"
  shows "\<exists>E' d'. RenderState_bind h this pass E = Some (Inr E') \<and> defaultState E' = Some d'
           \<and> (\<forall>s sb. nearest_override h as s = Some sb \<longrightarrow> held d' s = held sb s)"
proof -
  from bind_top_down_Some [OF assms(2), of h as "getEffect pass"]
  obtain E' where b: "bind_top_down h as (getEffect pass) E = Inr E'"
    and d': "defaultState E' = Some (foldr (level_bound h) as (restored (union_bits h as) d))"
    by blast
  have "RenderState_bind h this pass E = Some (Inr E')"
    by (simp add: RenderState_bind_chain [OF assms(1)] b)
  with d' show ?thesis
    by (simp add: held_nearest_override)
qed

lemma cull_heap_simps:
  "ancestry cull_heap 0 [0, 1]"
  "state (cull_heap 0) = Some (setCullFace False StateBlock_create)"
  "state (cull_heap (Suc 0)) = Some (setCullFace True StateBlock_create)"
  by (simp_all add: cull_heap_def cull_child_def cull_parent_def RenderState_create_def)

lemma cull_overrides:
  "\<not> overrides (setCullFace False StateBlock_create) CULL_FACE"
  "overrides (setCullFace True StateBlock_create) CULL_FACE"
  by (simp_all add: overrides_def setCullFace_def StateBlock_create_def RS_CULL_FACE_def)

lemma cull_nearest:
  "nearest_override cull_heap [0, 1] CULL_FACE = Some (setCullFace True StateBlock_create)"
  by (simp add: cull_heap_simps cull_overrides)

section \<open>Properties of auto-binding resolution\<close>

lemma call_resolvers_declined:
  "declined rsv ab node p \<Longrightarrow>
   call_resolvers rsv i ab node p
     = (False, offered rsv ab node p, map ResolverCalled [i..<i + length rsv])"
proof (induction rsv arbitrary: i p)
  case Nil
  then show ?case by simp
next
  case (Cons r rsv)
  from Cons.prems have no: "\<not> fst (r ab node p)" and rest: "declined rsv ab node (snd (r ab node p))"
    by simp_all
  have "[i..<i + length (r # rsv)] = i # [Suc i..<Suc i + length rsv]"
    by (subst upt_rec) simp
  with no Cons.IH [OF rest, of "Suc i"] show ?case
    by (simp add: split_beta)
qed

lemma call_resolvers_handled:
  "declined pre ab node p \<Longrightarrow> fst (r ab node (offered pre ab node p)) \<Longrightarrow>
   call_resolvers (pre @ r # post) i ab node p
     = (True, snd (r ab node (offered pre ab node p)), map ResolverCalled [i..<Suc (i + length pre)])"
proof (induction pre arbitrary: i p)
  case Nil
  then show ?case by (simp add: split_beta)
next
  case (Cons q pre)
  from Cons.prems have no: "\<not> fst (q ab node p)" and rest: "declined pre ab node (snd (q ab node p))"
    and yes: "fst (r ab node (offered pre ab node (snd (q ab node p))))"
    by simp_all
  have "[i..<Suc (i + length (q # pre))] = i # [Suc i..<Suc (Suc i + length pre)]"
    by (subst upt_rec) simp
  with no Cons.IH [OF rest yes, of "Suc i"] show ?case
    by (simp add: split_beta)
qed

lemma builtin_table_hit:
  "map_of builtin_table ab = Some g \<Longrightarrow>
   builtin_resolution ab node p E = Inr (bindValue (NodeMethod node g) p, E)"
  by (auto simp add: builtin_table_def builtin_resolution_def split: if_splits)

lemma builtin_table_miss:
  "map_of builtin_table ab = None \<Longrightarrow> ab \<noteq> ''MATRIX_PALETTE'' \<Longrightarrow>
   builtin_resolution ab node p E
     = Inr (p, emit [Warning ''Unsupported auto binding type (%d).'' (Some ab)] E)"
  by (simp add: builtin_table_def builtin_resolution_def GP_WARN_def split: if_splits)

lemma builtin_palette:
  "builtin_resolution ''MATRIX_PALETTE'' (Some n) p E
     = Inr (case skin_of E n of Some s \<Rightarrow> bindValue (MatrixPalette s) p | None \<Rightarrow> p, E)"
  by (simp add: builtin_resolution_def skin_of_def split: option.split)

lemma nodeBinding_getParameter: "nodeBinding (snd (getParameter name rs)) = nodeBinding rs"
  by (simp add: getParameter_def split: option.split)

lemma autoBindings_getParameter: "autoBindings (snd (getParameter name rs)) = autoBindings rs"
  by (simp add: getParameter_def split: option.split)

lemma applyAutoBinding_handled:
  assumes "getParameter name rs = (i, rs1)"
    and "customAutoBindingResolvers E = pre @ r # post"
    and "declined pre ab (nodeBinding rs) (parameters rs1 ! i)"
    and "fst (r ab (nodeBinding rs) (offered pre ab (nodeBinding rs) (parameters rs1 ! i)))"
  shows "applyAutoBinding name ab rs E =
           Inr (rs1\<lparr>parameters := (parameters rs1)
                     [i := snd (r ab (nodeBinding rs) (offered pre ab (nodeBinding rs) (parameters rs1 ! i)))]\<rparr>,
                emit (ApplyAutoBinding name ab (nodeBinding rs) # map ResolverCalled [0..<Suc (length pre)]) E)"
proof -
  have nb: "nodeBinding rs1 = nodeBinding rs"
    using nodeBinding_getParameter [of name rs] assms(1) by simp
  show ?thesis
    using call_resolvers_handled [of pre ab "nodeBinding rs" "parameters rs1 ! i" r post 0] assms(3,4)
    by (simp add: applyAutoBinding_def assms(1,2) nb emit_def)
qed

lemma applyAutoBinding_declined:
  assumes "getParameter name rs = (i, rs1)"
    and "declined (customAutoBindingResolvers E) (Some ab) (nodeBinding rs) (parameters rs1 ! i)"
  shows "applyAutoBinding name (Some ab) rs E =
           (case builtin_resolution ab (nodeBinding rs)
                   (offered (customAutoBindingResolvers E) (Some ab) (nodeBinding rs) (parameters rs1 ! i))
                   (emit (ApplyAutoBinding name (Some ab) (nodeBinding rs)
                          # map ResolverCalled [0..<length (customAutoBindingResolvers E)]) E) of
              Inl e \<Rightarrow> Inl e
            | Inr (param2, E3) \<Rightarrow> Inr (rs1\<lparr>parameters := (parameters rs1)[i := param2]\<rparr>, E3))"
proof -
  have nb: "nodeBinding rs1 = nodeBinding rs"
    using nodeBinding_getParameter [of name rs] assms(1) by simp
  show ?thesis
    using call_resolvers_declined [OF assms(2), of 0]
    by (simp add: applyAutoBinding_def assms(1) nb emit_def)
qed

lemma rs_node_getParameter:
  "getParameter ''u'' rs_node = (0, rs_node\<lparr>parameters := [param_u Unset]\<rparr>)"
  by (simp add: getParameter_def rs_node_def RenderState_create_def param_u_def)

lemma engineT_simps:
  "customAutoBindingResolvers engineT = [time_resolver]"
  "skin_of engineT 3 = None"
  by (simp_all add: engineT_def registerAutoBindingResolver_def initialize_def engine0_def
      skin_of_def)

lemma time_resolver_simps:
  "time_resolver (Some ''TIME'') node p = (True, p\<lparr>held_value := Literal 1\<rparr>)"
  "ab \<noteq> ''TIME'' \<Longrightarrow> time_resolver (Some ab) node p = (False, p)"
  by (simp_all add: time_resolver_def)

lemma builtin_table_examples:
  "map_of builtin_table ''WORLD_MATRIX'' = Some getWorldMatrix"
  "map_of builtin_table ''BOGUS'' = None"
  by (simp_all add: builtin_table_def)

lemma applications_append: "applications (xs @ ys) = applications xs @ applications ys"
  by (induction xs rule: applications.induct) simp_all

lemma applications_resolver_calls: "applications (map ResolverCalled ns) = []"
  by (induction ns) simp_all

lemma call_resolvers_events:
  "call_resolvers rsv i ab node p = (handled, p', evs) \<Longrightarrow> applications evs = []"
proof (induction rsv arbitrary: i p handled p' evs)
  case Nil
  then show ?case by simp
next
  case (Cons r rsv)
  obtain h1 p1 where r: "r ab node p = (h1, p1)"
    by (cases "r ab node p")
  show ?case
  proof (cases h1)
    case True
    with Cons.prems r show ?thesis by auto
  next
    case False
    obtain h2 p2 evs2 where rest: "call_resolvers rsv (Suc i) ab node p1 = (h2, p2, evs2)"
      by (cases "call_resolvers rsv (Suc i) ab node p1")
    from Cons.IH [OF rest] have "applications evs2 = []" .
    with Cons.prems r False rest show ?thesis by auto
  qed
qed

lemma builtin_resolution_Some:
  "\<exists>p' E'. builtin_resolution ab (Some n) p E = Inr (p', E')
     \<and> applications (log E') = applications (log E)"
  by (simp add: builtin_resolution_def GP_WARN_def emit_def applications_append Let_def
      split: option.split)

lemma applyAutoBinding_Some:
  assumes "nodeBinding rs = Some n"
  shows "\<exists>rs' E'. applyAutoBinding k (Some v) rs E = Inr (rs', E')
           \<and> nodeBinding rs' = Some n \<and> autoBindings rs' = autoBindings rs
           \<and> applications (log E') = applications (log E) @ [ApplyAutoBinding k (Some v) (Some n)]"
proof -
  obtain i rs1 where gp: "getParameter k rs = (i, rs1)"
    by (cases "getParameter k rs")
  have nb: "nodeBinding rs1 = Some n" and ab: "autoBindings rs1 = autoBindings rs"
    using nodeBinding_getParameter [of k rs] autoBindings_getParameter [of k rs] gp assms
    by simp_all
  let ?E1 = "emit [ApplyAutoBinding k (Some v) (Some n)] E"
  obtain handled p1 evs where cr:
    "call_resolvers (customAutoBindingResolvers E) 0 (Some v) (Some n) (parameters rs1 ! i)
       = (handled, p1, evs)"
    by (cases "call_resolvers (customAutoBindingResolvers E) 0 (Some v) (Some n) (parameters rs1 ! i)")
  from call_resolvers_events [OF cr] have evs: "applications evs = []" .
  have log2: "applications (log (emit evs ?E1))
              = applications (log E) @ [ApplyAutoBinding k (Some v) (Some n)]"
    by (simp add: emit_def applications_append evs)
  show ?thesis
  proof (cases handled)
    case True
    then show ?thesis
      using log2 by (simp add: applyAutoBinding_def gp nb ab cr emit_def)
  next
    case False
    from builtin_resolution_Some [of v n p1 "emit evs ?E1"]
    obtain p2 E3 where b: "builtin_resolution v (Some n) p1 (emit evs ?E1) = Inr (p2, E3)"
      and l3: "applications (log E3) = applications (log (emit evs ?E1))" by blast
    from False b l3 log2 show ?thesis
      by (simp add: applyAutoBinding_def gp nb ab cr emit_def)
  qed
qed

lemma apply_all_Some:
  "nodeBinding rs = Some n \<Longrightarrow>
   \<exists>rs' E'. apply_all m rs E = Inr (rs', E')
     \<and> nodeBinding rs' = Some n \<and> autoBindings rs' = autoBindings rs
     \<and> applications (log E') = applications (log E) @ map (application n) m"
proof (induction m arbitrary: rs E)
  case Nil
  then show ?case by simp
next
  case (Cons kv m)
  obtain k v where kv: "kv = (k, v)" by (cases kv)
  from applyAutoBinding_Some [OF Cons.prems, of k v E]
  obtain rs1 E1 where a: "applyAutoBinding k (Some v) rs E = Inr (rs1, E1)"
    and nb: "nodeBinding rs1 = Some n" and ab: "autoBindings rs1 = autoBindings rs"
    and l: "applications (log E1) = applications (log E) @ [ApplyAutoBinding k (Some v) (Some n)]"
    by blast
  from Cons.IH [OF nb, of E1]
  obtain rs' E' where r: "apply_all m rs1 E1 = Inr (rs', E')"
    and nb': "nodeBinding rs' = Some n" and ab': "autoBindings rs' = autoBindings rs1"
    and l': "applications (log E') = applications (log E1) @ map (application n) m"
    by blast
  show ?case
    by (simp add: kv a r nb' ab' ab l' l application_def)
qed

lemma map_find_assign: "map_find (map_assign k v m) k = Some v"
  by (induction m) (auto simp add: map_find_def)

lemma map_find_assign_other: "k' \<noteq> k \<Longrightarrow> map_find (map_assign k v m) k' = map_find m k'"
  by (induction m) (auto simp add: map_find_def)

lemma map_erase_absent: "map_find m k = None \<Longrightarrow> map_erase k m = m"
  by (induction m) (auto simp add: map_find_def split: if_splits)

lemma map_find_erase:
  "distinct (map fst m) \<Longrightarrow> map_find (map_erase k m) k' = (if k' = k then None else map_find m k')"
proof (induction m)
  case Nil
  then show ?case by (simp add: map_find_def)
next
  case (Cons e m)
  obtain a b where e: "e = (a, b)" by (cases e)
  from Cons.prems e have "a \<notin> fst ` set m" and d: "distinct (map fst m)" by simp_all
  then have "map_of m a = None" by (simp add: map_of_eq_None_iff)
  with Cons.IH [OF d] e show ?case
    by (auto simp add: map_find_def)
qed

lemma initialize_engine0_simps:
  "customAutoBindingResolvers (initialize engine0) = []"
  "assertsEnabled (initialize engine0)"
  "log (initialize engine0) = []"
  "customAutoBindingResolvers engineR = []"
  "\<not> assertsEnabled engineR"
  "log engineR = []"
  by (simp_all add: initialize_def engine0_def engineR_def)

lemma rs_simps:
  "nodeBinding RenderState_create = None"
  "autoBindings RenderState_create = []"
  "nodeBinding rs_node = Some 3"
  "autoBindings rs_node = []"
  "nodeBinding rs_bound = Some 3"
  "autoBindings rs_bound = [(''u'', ''WORLD_MATRIX'')]"
  "parameters rs_bound = []"
  by (simp_all add: RenderState_create_def rs_node_def rs_bound_def)

text \<open>
  Where assertions are compiled out and no node is attached, a null binding name removes
  the entry of the name and changes nothing else.
\<close>

lemma null_binding_removes_without_node:
  "\<not> assertsEnabled E \<Longrightarrow> nodeBinding rs = None \<Longrightarrow>
   setParameterAutoBinding name None rs E
     = Inr (rs\<lparr>autoBindings := map_erase name (autoBindings rs)\<rparr>, E)"
  by (simp add: setParameterAutoBinding_def map_erase_absent split: option.split)

text \<open>
  For every enumeration constant but \<open>NONE\<close> and \<open>WORLD_MATRIX\<close>, the enum overload is the
  string overload at the constant's spelled-out name.
\<close>

lemma enum_overload_agrees:
  "a \<noteq> NONE \<Longrightarrow> a \<noteq> WORLD_MATRIX \<Longrightarrow>
   setParameterAutoBinding_enum name a rs E = setParameterAutoBinding name (Some (spelled a)) rs E"
  by (cases a) (simp_all add: setParameterAutoBinding_enum_def)

text \<open>
  The list of entries stays in strictly ascending key order, as the entries of a
  \<open>std::map\<close> are, so no key is recorded twice.
\<close>

lemma set_map_assign: "set (map fst (map_assign k v m)) = insert k (set (map fst m))"
  by (induction m) (force split: if_splits)+

lemma map_assign_sorted:
  "sorted_wrt (<) (map fst m) \<Longrightarrow> sorted_wrt (<) (map fst (map_assign k v m))"
proof (induction m)
  case Nil
  then show ?case by simp
next
  case (Cons e m)
  obtain a b where e: "e = (a, b)" by (cases e)
  from Cons.prems e have above: "\<forall>x \<in> set (map fst m). a < x" and tl: "sorted_wrt (<) (map fst m)"
    by auto
  show ?case
  proof (cases "k = a")
    case True
    with Cons.prems e show ?thesis by simp
  next
    case False
    show ?thesis
    proof (cases "k < a")
      case True
      with above have "\<forall>x \<in> set (map fst m). k < x" by auto
      with True False Cons.prems e show ?thesis by auto
    next
      case ge: False
      with False have "a < k" by simp
      with above have "\<forall>x \<in> set (map fst (map_assign k v m)). a < x"
        unfolding set_map_assign by simp
      with ge False Cons.IH [OF tl] e show ?thesis by auto
    qed
  qed
qed

lemma set_map_erase: "set (map_erase k m) \<subseteq> set m"
  by (induction m) (auto split: if_splits)

lemma map_erase_sorted:
  "sorted_wrt (<) (map fst m) \<Longrightarrow> sorted_wrt (<) (map fst (map_erase k m))"
proof (induction m)
  case Nil
  then show ?case by simp
next
  case (Cons e m)
  then show ?case
    using set_map_erase [of k m] by (cases e) (auto simp add: subset_iff)
qed

lemma sorted_keys_distinct: "sorted_wrt (<) (map fst m) \<Longrightarrow> distinct (map fst m)"
  for m :: "(string \<times> string) list"
  by (simp add: strict_sorted_iff)

text \<open>
  What the applications leave in the parameters: \<open>setNodeBinding\<close> is the sequence of the
  applications of the recorded entries, and where every registered resolver is inert
  each application binds the parameter of its own name and no other.
\<close>

lemma fold_apply_entry_Inl: "fold apply_entry m (Inl e) = Inl e"
  by (induction m) (simp_all add: apply_entry_def)

lemma apply_entry_Inr: "apply_entry (k, v) (Inr (rs, E)) = applyAutoBinding k (Some v) rs E"
  by (simp add: apply_entry_def)

lemma apply_all_fold: "apply_all m rs E = fold apply_entry m (Inr (rs, E))"
proof (induction m arbitrary: rs E)
  case Nil
  then show ?case by simp
next
  case (Cons kv m)
  obtain k v where kv: "kv = (k, v)" by (cases kv)
  show ?case
  proof (cases "applyAutoBinding k (Some v) rs E")
    case (Inl e)
    then show ?thesis by (simp add: kv apply_entry_Inr fold_apply_entry_Inl)
  next
    case (Inr r)
    obtain rs1 E1 where r: "r = (rs1, E1)" by (cases r)
    with Inr Cons.IH [of rs1 E1] show ?thesis by (simp add: kv apply_entry_Inr)
  qed
qed

lemma find_parameter_Some:
  "find_parameter ps k = Some i \<Longrightarrow> i < length ps \<and> getName (ps ! i) = k"
proof (induction ps arbitrary: i)
  case Nil
  then show ?case by simp
next
  case (Cons p ps)
  then show ?case by (auto split: if_splits)
qed

lemma find_parameter_append_other:
  "getName p \<noteq> k \<Longrightarrow> find_parameter (ps @ [p]) k = find_parameter ps k"
  by (induction ps) simp_all

lemma find_parameter_append_new:
  "find_parameter ps k = None \<Longrightarrow> getName p = k \<Longrightarrow> find_parameter (ps @ [p]) k = Some (length ps)"
  by (induction ps) (auto split: if_splits)

lemma find_parameter_update:
  "i < length ps \<Longrightarrow> getName p = getName (ps ! i) \<Longrightarrow>
   find_parameter (ps[i := p]) k = find_parameter ps k"
proof (induction ps arbitrary: i)
  case Nil
  then show ?case by simp
next
  case (Cons q ps)
  then show ?case by (cases i) simp_all
qed

lemma getParameter_found:
  assumes "getParameter k rs = (i, rs1)"
  shows "find_parameter (parameters rs1) k = Some i"
    and "i < length (parameters rs1)"
    and "getName (parameters rs1 ! i) = k"
proof -
  show f: "find_parameter (parameters rs1) k = Some i"
  proof (cases "find_parameter (parameters rs) k")
    case None
    with assms show ?thesis
      by (auto simp add: getParameter_def find_parameter_append_new)
  next
    case (Some j)
    with assms show ?thesis
      by (auto simp add: getParameter_def)
  qed
  from find_parameter_Some [OF f]
  show "i < length (parameters rs1)" and "getName (parameters rs1 ! i) = k"
    by simp_all
qed

lemma getParameter_other:
  assumes "getParameter k rs = (i, rs1)" and "k' \<noteq> k"
  shows "parameter_value rs1 k' = parameter_value rs k'"
proof (cases "find_parameter (parameters rs) k")
  case None
  with assms(1) have rs1: "parameters rs1 = parameters rs @ [\<lparr>getName = k, held_value = Unset\<rparr>]"
    by (auto simp add: getParameter_def)
  have f: "find_parameter (parameters rs1) k' = find_parameter (parameters rs) k'"
    using assms(2) by (simp add: rs1 find_parameter_append_other)
  show ?thesis
  proof (cases "find_parameter (parameters rs) k'")
    case None
    with f show ?thesis by (simp add: parameter_value_def)
  next
    case (Some j)
    from find_parameter_Some [OF Some] have "j < length (parameters rs)" by simp
    with f Some show ?thesis
      by (simp add: parameter_value_def rs1 nth_append)
  qed
next
  case (Some j)
  with assms(1) have "rs1 = rs"
    by (auto simp add: getParameter_def)
  then show ?thesis by simp
qed

lemma parameter_value_update_same:
  assumes "find_parameter (parameters rs) k = Some i" and "getName p = k"
  shows "parameter_value (rs\<lparr>parameters := (parameters rs)[i := p]\<rparr>) k = Some (held_value p)"
proof -
  from find_parameter_Some [OF assms(1)] have i: "i < length (parameters rs)"
    and n: "getName (parameters rs ! i) = k" by simp_all
  have "find_parameter ((parameters rs)[i := p]) k = Some i"
    using find_parameter_update [of i "parameters rs" p k] i n assms by simp
  then show ?thesis
    using i by (simp add: parameter_value_def)
qed

lemma parameter_value_update_other:
  assumes "find_parameter (parameters rs) k = Some i" and "getName p = k" and "k' \<noteq> k"
  shows "parameter_value (rs\<lparr>parameters := (parameters rs)[i := p]\<rparr>) k' = parameter_value rs k'"
proof -
  from find_parameter_Some [OF assms(1)] have i: "i < length (parameters rs)"
    and n: "getName (parameters rs ! i) = k" by simp_all
  have f: "find_parameter ((parameters rs)[i := p]) k' = find_parameter (parameters rs) k'"
    using find_parameter_update [of i "parameters rs" p k'] i n assms(2) by simp
  show ?thesis
  proof (cases "find_parameter (parameters rs) k'")
    case None
    with f show ?thesis by (simp add: parameter_value_def)
  next
    case (Some j)
    from find_parameter_Some [OF Some] n assms(3) have "j \<noteq> i" by auto
    with f Some show ?thesis
      by (simp add: parameter_value_def)
  qed
qed

lemma builtin_resolution_keeps:
  "builtin_resolution v (Some n) p E = Inr (p', E') \<Longrightarrow>
   getName p' = getName p \<and> customAutoBindingResolvers E' = customAutoBindingResolvers E"
  by (auto simp add: builtin_resolution_def bindValue_def GP_WARN_def emit_def Let_def
      split: if_splits option.splits)

lemma call_resolvers_inert:
  "\<forall>r \<in> set rsv. inert r \<Longrightarrow>
   call_resolvers rsv i ab node p = (False, p, map ResolverCalled [i..<i + length rsv])"
proof -
  assume a: "\<forall>r \<in> set rsv. inert r"
  then have "declined rsv ab node p \<and> offered rsv ab node p = p"
    by (induction rsv arbitrary: p) (simp_all add: inert_def)
  with call_resolvers_declined [of rsv ab node p i] show ?thesis by simp
qed

lemma applyAutoBinding_inert:
  assumes "\<forall>r \<in> set (customAutoBindingResolvers E). inert r" and "nodeBinding rs = Some n"
  shows "\<exists>rs' E'. applyAutoBinding k (Some v) rs E = Inr (rs', E')
           \<and> customAutoBindingResolvers E' = customAutoBindingResolvers E
           \<and> (\<forall>g. map_of builtin_table v = Some g \<longrightarrow>
                  parameter_value rs' k = Some (NodeMethod (Some n) g))
           \<and> (\<forall>k'. k' \<noteq> k \<longrightarrow> parameter_value rs' k' = parameter_value rs k')"
proof -
  obtain i rs1 where gp: "getParameter k rs = (i, rs1)"
    by (cases "getParameter k rs")
  have nb: "nodeBinding rs1 = Some n"
    using nodeBinding_getParameter [of k rs] gp assms(2) by simp
  note found = getParameter_found [OF gp]
  let ?p0 = "parameters rs1 ! i"
  let ?E2 = "emit (map ResolverCalled [0..<length (customAutoBindingResolvers E)])
               (emit [ApplyAutoBinding k (Some v) (Some n)] E)"
  have cr: "call_resolvers (customAutoBindingResolvers E) 0 (Some v) (Some n) ?p0
              = (False, ?p0, map ResolverCalled [0..<length (customAutoBindingResolvers E)])"
    using call_resolvers_inert [OF assms(1), of 0 "Some v" "Some n" ?p0] by simp
  from builtin_resolution_Some [of v n ?p0 ?E2]
  obtain p' E' where b: "builtin_resolution v (Some n) ?p0 ?E2 = Inr (p', E')" by blast
  from builtin_resolution_keeps [OF b] found(3)
  have name: "getName p' = k" and res: "customAutoBindingResolvers E' = customAutoBindingResolvers E"
    by (simp_all add: emit_def)
  let ?rs' = "rs1\<lparr>parameters := (parameters rs1)[i := p']\<rparr>"
  have app: "applyAutoBinding k (Some v) rs E = Inr (?rs', E')"
    using b by (simp add: applyAutoBinding_def gp nb cr emit_def)
  have same: "parameter_value ?rs' k = Some (held_value p')"
    by (rule parameter_value_update_same [OF found(1) name])
  have hit: "\<forall>g. map_of builtin_table v = Some g \<longrightarrow>
               parameter_value ?rs' k = Some (NodeMethod (Some n) g)"
  proof (intro allI impI)
    fix g
    assume "map_of builtin_table v = Some g"
    from builtin_table_hit [OF this, of "Some n" ?p0 ?E2] b
    have "p' = bindValue (NodeMethod (Some n) g) ?p0" by simp
    with same show "parameter_value ?rs' k = Some (NodeMethod (Some n) g)"
      by (simp add: bindValue_def)
  qed
  have other: "\<forall>k'. k' \<noteq> k \<longrightarrow> parameter_value ?rs' k' = parameter_value rs k'"
  proof (intro allI impI)
    fix k' :: string
    assume ne: "k' \<noteq> k"
    have "parameter_value ?rs' k' = parameter_value rs1 k'"
      by (rule parameter_value_update_other [OF found(1) name ne])
    also have "\<dots> = parameter_value rs k'"
      by (rule getParameter_other [OF gp ne])
    finally show "parameter_value ?rs' k' = parameter_value rs k'" .
  qed
  from app res hit other show ?thesis by blast
qed

lemma apply_all_inert:
  "\<forall>r \<in> set (customAutoBindingResolvers E). inert r \<Longrightarrow> nodeBinding rs = Some n \<Longrightarrow>
   distinct (map fst m) \<Longrightarrow>
   \<exists>rs' E'. apply_all m rs E = Inr (rs', E')
     \<and> (\<forall>k v g. (k, v) \<in> set m \<and> map_of builtin_table v = Some g \<longrightarrow>
            parameter_value rs' k = Some (NodeMethod (Some n) g))
     \<and> (\<forall>k'. k' \<notin> set (map fst m) \<longrightarrow> parameter_value rs' k' = parameter_value rs k')"
proof (induction m arbitrary: rs E)
  case Nil
  then show ?case by simp
next
  case (Cons kv m)
  obtain k0 v0 where kv: "kv = (k0, v0)" by (cases kv)
  from Cons.prems(3) kv have fresh: "k0 \<notin> set (map fst m)" and dist: "distinct (map fst m)"
    by simp_all
  from applyAutoBinding_inert [OF Cons.prems(1,2), of k0 v0]
  obtain rs1 E1 where a: "applyAutoBinding k0 (Some v0) rs E = Inr (rs1, E1)"
    and res: "customAutoBindingResolvers E1 = customAutoBindingResolvers E"
    and hit: "\<forall>g. map_of builtin_table v0 = Some g \<longrightarrow>
                parameter_value rs1 k0 = Some (NodeMethod (Some n) g)"
    and other: "\<forall>k'. k' \<noteq> k0 \<longrightarrow> parameter_value rs1 k' = parameter_value rs k'"
    by blast
  from applyAutoBinding_Some [OF Cons.prems(2), of k0 v0 E] a
  have nb1: "nodeBinding rs1 = Some n" by auto
  have in1: "\<forall>r \<in> set (customAutoBindingResolvers E1). inert r"
    using Cons.prems(1) res by simp
  from Cons.IH [OF in1 nb1 dist]
  obtain rs' E' where r: "apply_all m rs1 E1 = Inr (rs', E')"
    and hits: "\<forall>k v g. (k, v) \<in> set m \<and> map_of builtin_table v = Some g \<longrightarrow>
                 parameter_value rs' k = Some (NodeMethod (Some n) g)"
    and others: "\<forall>k'. k' \<notin> set (map fst m) \<longrightarrow> parameter_value rs' k' = parameter_value rs1 k'"
    by blast
  have all: "apply_all (kv # m) rs E = Inr (rs', E')"
    by (simp add: kv a r)
  have "\<forall>k v g. (k, v) \<in> set (kv # m) \<and> map_of builtin_table v = Some g \<longrightarrow>
          parameter_value rs' k = Some (NodeMethod (Some n) g)"
  proof (intro allI impI)
    fix k v g
    assume h: "(k, v) \<in> set (kv # m) \<and> map_of builtin_table v = Some g"
    show "parameter_value rs' k = Some (NodeMethod (Some n) g)"
    proof (cases "(k, v) \<in> set m")
      case True
      with h hits show ?thesis by blast
    next
      case False
      with h kv have "k = k0" and "v = v0" by auto
      with h hit others fresh show ?thesis by simp
    qed
  qed
  moreover have "\<forall>k'. k' \<notin> set (map fst (kv # m)) \<longrightarrow> parameter_value rs' k' = parameter_value rs k'"
    using others other by (simp add: kv)
  ultimately show ?case
    using all by blast
qed

lemma engineI_simps:
  "customAutoBindingResolvers engineI = [idle_resolver]"
  "log engineI = []"
  "inert idle_resolver"
  by (simp_all add: engineI_def registerAutoBindingResolver_def initialize_def engine0_def
      inert_def idle_resolver_def)

lemma rs_two_simps:
  "nodeBinding rs_two = None"
  "autoBindings rs_two = [(''u'', ''WORLD_MATRIX''), (''v'', ''VIEW_MATRIX'')]"
  "parameters rs_two = []"
  by (simp_all add: rs_two_def RenderState_create_def)

lemma builtin_table_VIEW: "map_of builtin_table ''VIEW_MATRIX'' = Some getViewMatrix"
  by (simp add: builtin_table_def)

lemma applyAutoBinding_idle:
  assumes "customAutoBindingResolvers E = [idle_resolver]"
    and "getParameter k rs = (i, rs1)" and "map_of builtin_table v = Some g"
  shows "applyAutoBinding k (Some v) rs E =
           Inr (rs1\<lparr>parameters := (parameters rs1)
                     [i := bindValue (NodeMethod (nodeBinding rs) g) (parameters rs1 ! i)]\<rparr>,
                emit [ApplyAutoBinding k (Some v) (nodeBinding rs), ResolverCalled 0] E)"
proof -
  have "declined (customAutoBindingResolvers E) (Some v) (nodeBinding rs) (parameters rs1 ! i)"
    by (simp add: assms(1) idle_resolver_def)
  from applyAutoBinding_declined [OF assms(2) this] show ?thesis
    by (simp add: assms(1,3) builtin_table_hit idle_resolver_def)
qed

lemma rs_two_applied:
  "fold apply_entry (autoBindings rs_two) (Inr (rs_two\<lparr>nodeBinding := Some 3\<rparr>, engineI)) =
     Inr (rs_two\<lparr>nodeBinding := Some 3,
                  parameters := [param_u (NodeMethod (Some 3) getWorldMatrix),
                                 param_v (NodeMethod (Some 3) getViewMatrix)]\<rparr>,
          emit [ApplyAutoBinding ''u'' (Some ''WORLD_MATRIX'') (Some 3), ResolverCalled 0,
                ApplyAutoBinding ''v'' (Some ''VIEW_MATRIX'') (Some 3), ResolverCalled 0] engineI)"
proof -
  let ?rs0 = "rs_two\<lparr>nodeBinding := Some 3\<rparr>"
  let ?rs1 = "?rs0\<lparr>parameters := [param_u (NodeMethod (Some 3) getWorldMatrix)]\<rparr>"
  let ?E1 = "emit [ApplyAutoBinding ''u'' (Some ''WORLD_MATRIX'') (Some 3), ResolverCalled 0] engineI"
  have g0: "getParameter ''u'' ?rs0 = (0, ?rs0\<lparr>parameters := [param_u Unset]\<rparr>)"
    by (simp add: getParameter_def rs_two_simps param_u_def)
  have a0: "applyAutoBinding ''u'' (Some ''WORLD_MATRIX'') ?rs0 engineI = Inr (?rs1, ?E1)"
    using applyAutoBinding_idle [OF engineI_simps(1) g0 builtin_table_examples(1)]
    by (simp add: bindValue_def param_u_def)
  have r1: "customAutoBindingResolvers ?E1 = [idle_resolver]"
    by (simp add: emit_def engineI_simps)
  have g1: "getParameter ''v'' ?rs1
              = (1, ?rs1\<lparr>parameters := [param_u (NodeMethod (Some 3) getWorldMatrix), param_v Unset]\<rparr>)"
    by (simp add: getParameter_def param_u_def param_v_def)
  have a1: "applyAutoBinding ''v'' (Some ''VIEW_MATRIX'') ?rs1 ?E1 =
     Inr (rs_two\<lparr>nodeBinding := Some 3,
                  parameters := [param_u (NodeMethod (Some 3) getWorldMatrix),
                                 param_v (NodeMethod (Some 3) getViewMatrix)]\<rparr>,
          emit [ApplyAutoBinding ''u'' (Some ''WORLD_MATRIX'') (Some 3), ResolverCalled 0,
                ApplyAutoBinding ''v'' (Some ''VIEW_MATRIX'') (Some 3), ResolverCalled 0] engineI)"
    using applyAutoBinding_idle [OF r1 g1 builtin_table_VIEW]
    by (simp add: bindValue_def param_v_def emit_def)
  show ?thesis
    by (simp add: rs_two_simps apply_entry_Inr a0 a1)
qed

section \<open>Properties of the string-driven configuration\<close>

lemma list4: "length v = 4 \<Longrightarrow> \<exists>a b c d. v = [a, b, c, d]"
  by (auto simp add: length_Suc_conv eval_nat_numeral)

lemma parseBoolean_is_true: "parseBoolean v = is_true v"
proof (cases "length v = 4")
  case True
  from list4 [OF True] obtain a b c d where v: "v = [a, b, c, d]" by blast
  show ?thesis by (simp add: v parseBoolean_def is_true_def)
next
  case False
  have "map tolower v \<noteq> ''true''"
  proof
    assume "map tolower v = ''true''"
    then have "length (map tolower v) = length ''true''" by (rule arg_cong)
    with False show False by simp
  qed
  with False show ?thesis by (simp add: parseBoolean_def is_true_def)
qed

lemma parseBlend_blend_of:
  "parseBlend v E =
     (blend_of v,
      if map_of blend_names (map toupper v) = None
      then emit [Error ''Unsupported blend value (%s). (Will default to BLEND_ONE if errors are treated as warnings)'' v] E
      else E)"
  unfolding parseBlend_def blend_of_def blend_names_def GP_ERROR_def Let_def
  by (simp del: list.map)

lemma setState_refines:
  "setState name v sb E = setState_spec name v sb E"
  unfolding setState_def setState_spec_def state_names_def takes_blend_def
    parseBlend_blend_of parseBoolean_is_true
  by (simp add: GP_ERROR_def)

text \<open>
  Examples: the value of a boolean state is read without regard to case, the name of a
  state with regard to it; a blend factor outside the vocabulary (\<open>SRC_COLOR\<close> is a
  constant of the enumeration, but not a name that \<open>parseBlend\<close> knows) is reported and
  replaced by \<open>BLEND_ONE\<close>.
\<close>

lemma setState_examples:
  "setState ''blend'' ''TRUE'' StateBlock_create engine0 = (setBlend True StateBlock_create, engine0)"
  "setState ''Blend'' ''true'' StateBlock_create engine0
     = (StateBlock_create, emit [Error ''Unsupported render state string '%s'.'' ''Blend''] engine0)"
  "fst (setState ''dstBlend'' ''one_minus_src_alpha'' StateBlock_create engine0)
     = setBlendDst BLEND_ONE_MINUS_SRC_ALPHA StateBlock_create"
  "setState ''blendDst'' ''SRC_COLOR'' StateBlock_create engine0
     = (setBlendDst BLEND_ONE StateBlock_create,
        emit [Error ''Unsupported blend value (%s). (Will default to BLEND_ONE if errors are treated as warnings)'' ''SRC_COLOR''] engine0)"
  by (simp_all add: setState_refines setState_spec_def state_names_def takes_blend_def
      is_true_def blend_of_def blend_names_def tolower_def toupper_def upper_letters_def
      lower_letters_def)

section \<open>The claims about StateBlock\<close>

text \<open>
  Claim C2. Whenever the default state exists, \<open>restore b\<close> succeeds; the calls it
  issues are the reset calls of exactly the stale states (bit set in the default state's
  accumulated bits, not set in \<open>b\<close>), in the order of the five states; each stale state
  has its default value and a cleared bit afterwards; every other state, in particular
  every state whose bit is in \<open>b\<close>, keeps its cached value and its bit.
\<close>

theorem restore_resets_exactly_the_stale_states:
  assumes "defaultState E = Some d"
  shows "\<exists>d'. restore b E =
           Inr (E\<lparr>defaultState := Some d',
                  log := log E @ map (GL \<circ> reset_call) (filter (stale b d) tracked_states)\<rparr>)
         \<and> (\<forall>s. stale b d s \<longrightarrow> held d' s = default_value s \<and> \<not> overrides d' s)
         \<and> (\<forall>s. \<not> stale b d s \<longrightarrow> held d' s = held d s \<and> overrides d' s = overrides d s)"
  using restore_Some [OF assms, of b]
  by (intro exI [of _ "restored b d"]) (simp add: held_restored overrides_restored)

theorem restore_resets_exactly_the_stale_states_witness:
  "defaultState engineA = Some blockA
   \<and> stale RS_BLEND blockA CULL_FACE \<and> \<not> stale RS_BLEND blockA BLEND
   \<and> (\<exists>d'. restore RS_BLEND engineA =
              Inr (engineA\<lparr>defaultState := Some d', log := log engineA @ [GL (glDisable GL_CULL_FACE)]\<rparr>)
          \<and> held d' CULL_FACE = Flag False \<and> \<not> overrides d' CULL_FACE
          \<and> held d' BLEND = Flag True \<and> overrides d' BLEND)"
proof -
  from restore_resets_exactly_the_stale_states [OF defaultState_engineA, of RS_BLEND]
  obtain d' where r: "restore RS_BLEND engineA =
      Inr (engineA\<lparr>defaultState := Some d',
             log := log engineA @ map (GL \<circ> reset_call) (filter (stale RS_BLEND blockA) tracked_states)\<rparr>)"
    and st: "\<forall>s. stale RS_BLEND blockA s \<longrightarrow> held d' s = default_value s \<and> \<not> overrides d' s"
    and ns: "\<forall>s. \<not> stale RS_BLEND blockA s \<longrightarrow>
               held d' s = held blockA s \<and> overrides d' s = overrides blockA s"
    by blast
  from st blockA_cases(1) have "held d' CULL_FACE = Flag False \<and> \<not> overrides d' CULL_FACE"
    by fastforce
  moreover have "held d' BLEND = held blockA BLEND \<and> overrides d' BLEND = overrides blockA BLEND"
    using ns blockA_cases(2) by blast
  then have "held d' BLEND = Flag True \<and> overrides d' BLEND"
    by (simp add: blockA_simps blockA_cases(3))
  ultimately have "\<exists>d'. restore RS_BLEND engineA =
              Inr (engineA\<lparr>defaultState := Some d', log := log engineA @ [GL (glDisable GL_CULL_FACE)]\<rparr>)
          \<and> held d' CULL_FACE = Flag False \<and> \<not> overrides d' CULL_FACE
          \<and> held d' BLEND = Flag True \<and> overrides d' BLEND"
    using r by (intro exI [of _ d']) (simp add: stale_blockA)
  then show ?thesis
    using defaultState_engineA blockA_cases(1,2) by blast
qed

text \<open>
  Claim C3. Whenever the default state exists, \<open>bindNoRestore\<close> of a block succeeds;
  the calls it issues are the state-change calls of exactly the states that the block
  overrides with a value other than the cached one, in the order of the five states;
  the cached value of each such state becomes the block's, every other cached value
  stays; and the block's bits are OR-ed into the accumulated bits in every case.
\<close>

theorem bindNoRestore_issues_exactly_the_changes:
  assumes "defaultState E = Some d"
  shows "\<exists>d'. bindNoRestore sb E =
           Inr (E\<lparr>defaultState := Some d',
                  log := log E @ map (GL \<circ> set_call sb) (filter (changes sb d) tracked_states)\<rparr>)
         \<and> (\<forall>s. changes sb d s \<longrightarrow> held d' s = held sb s)
         \<and> (\<forall>s. \<not> changes sb d s \<longrightarrow> held d' s = held d s)
         \<and> bits d' = bits d OR bits sb"
  using bindNoRestore_Some [OF assms, of sb]
  by (intro exI [of _ "bound sb d"]) (simp add: held_bound bits_bound)

theorem bindNoRestore_issues_exactly_the_changes_witness:
  "defaultState (initialize engine0) = Some StateBlock_create
   \<and> changes blockA StateBlock_create BLEND \<and> \<not> changes blockA StateBlock_create DEPTH_TEST
   \<and> (\<exists>d'. bindNoRestore blockA (initialize engine0) =
              Inr ((initialize engine0)\<lparr>defaultState := Some d',
                     log := log (initialize engine0)
                            @ [GL (glEnable GL_BLEND), GL (glEnable GL_CULL_FACE)]\<rparr>)
          \<and> held d' BLEND = Flag True \<and> held d' DEPTH_TEST = Flag False \<and> bits d' = 5)"
proof -
  from bindNoRestore_issues_exactly_the_changes [OF defaultState_initialize, of blockA]
  obtain d' where r: "bindNoRestore blockA (initialize engine0) =
      Inr ((initialize engine0)\<lparr>defaultState := Some d',
             log := log (initialize engine0)
                    @ map (GL \<circ> set_call blockA) (filter (changes blockA StateBlock_create) tracked_states)\<rparr>)"
    and ch: "\<forall>s. changes blockA StateBlock_create s \<longrightarrow> held d' s = held blockA s"
    and nc: "\<forall>s. \<not> changes blockA StateBlock_create s \<longrightarrow> held d' s = held StateBlock_create s"
    and b: "bits d' = bits StateBlock_create OR bits blockA"
    by blast
  have "held d' BLEND = held blockA BLEND"
    using ch blockA_cases(4) by blast
  then have "held d' BLEND = Flag True"
    by (simp add: blockA_simps)
  moreover have "held d' DEPTH_TEST = held StateBlock_create DEPTH_TEST"
    using nc blockA_cases(5) by blast
  then have "held d' DEPTH_TEST = Flag False"
    by (simp add: StateBlock_create_def)
  moreover from b have "bits d' = 5"
    by (simp add: blockA_simps StateBlock_create_def)
  ultimately have "\<exists>d'. bindNoRestore blockA (initialize engine0) =
              Inr ((initialize engine0)\<lparr>defaultState := Some d',
                     log := log (initialize engine0)
                            @ [GL (glEnable GL_BLEND), GL (glEnable GL_CULL_FACE)]\<rparr>)
          \<and> held d' BLEND = Flag True \<and> held d' DEPTH_TEST = Flag False \<and> bits d' = 5"
    using r by (intro exI [of _ d']) (simp add: changes_blockA blockA_simps)
  then show ?thesis
    using defaultState_initialize blockA_cases(4,5) by blast
qed

text \<open>
  Claim C4, at the input where the code departs from it: a block as \<open>create\<close> returns
  it, with no setter called, holds depth writing off, which is not the default (on),
  and its bit for depth writing is clear.
\<close>

theorem fresh_StateBlock_depth_write_not_tracked:
  "held (apply_setters [] StateBlock_create) DEPTH_WRITE \<noteq> default_value DEPTH_WRITE
   \<and> \<not> overrides (apply_setters [] StateBlock_create) DEPTH_WRITE"
  by (simp add: StateBlock_create_def overrides_def)

text \<open>
  Claim C5. Whenever the default state exists, \<open>bind\<close> of a block is \<open>restore\<close> with
  the block's bits followed by \<open>bindNoRestore\<close>, both of which succeed; and binding the
  same block again right away leaves the engine as it is: nothing is added to the log,
  so no GPU call is issued.
\<close>

theorem StateBlock_bind_is_restore_then_bindNoRestore_and_rebinding_is_silent:
  assumes "defaultState E = Some d"
  shows "\<exists>E' E1. restore (bits sb) E = Inr E' \<and> bindNoRestore sb E' = Inr E1
           \<and> StateBlock_bind sb E = Inr E1
           \<and> StateBlock_bind sb E1 = Inr E1"
proof -
  let ?d1 = "restored (bits sb) d"
  let ?d2 = "bound sb ?d1"
  let ?E' = "E\<lparr>defaultState := Some ?d1,
       log := log E @ map (GL \<circ> reset_call) (filter (stale (bits sb) d) tracked_states)\<rparr>"
  let ?E1 = "?E'\<lparr>defaultState := Some ?d2,
       log := log ?E' @ map (GL \<circ> set_call sb) (filter (changes sb ?d1) tracked_states)\<rparr>"
  have r: "restore (bits sb) E = Inr ?E'"
    by (rule restore_Some [OF assms])
  have d': "defaultState ?E' = Some ?d1" by simp
  have b: "bindNoRestore sb ?E' = Inr ?E1"
    by (rule bindNoRestore_Some [OF d'])
  have first: "StateBlock_bind sb E = Inr ?E1"
    by (simp add: StateBlock_bind_def r b)
  have d1: "defaultState ?E1 = Some ?d2" by simp
  have nost: "filter (stale (bits sb) ?d2) tracked_states = []"
    by (simp add: no_stale_after_bind)
  have r2: "restore (bits sb) ?E1 = Inr ?E1"
    using restore_Some [OF d1, of "bits sb"]
    by (simp add: nost restored_id no_stale_after_bind)
  have noch: "filter (changes sb ?d2) tracked_states = []"
    by (simp add: no_changes_after_bound)
  have bd: "bound sb ?d2 = ?d2"
    using rebind_id [of ?d1 sb d] by (simp add: restored_id no_stale_after_bind)
  have b2: "bindNoRestore sb ?E1 = Inr ?E1"
    using bindNoRestore_Some [OF d1, of sb] by (simp add: noch bd)
  have second: "StateBlock_bind sb ?E1 = Inr ?E1"
    using r2 b2 by (simp add: StateBlock_bind_def)
  from r b first second show ?thesis by blast
qed

theorem StateBlock_bind_is_restore_then_bindNoRestore_and_rebinding_is_silent_witness:
  "defaultState engineA = Some blockA
   \<and> (\<exists>E' E1. restore (bits blockA) engineA = Inr E' \<and> bindNoRestore blockA E' = Inr E1
           \<and> StateBlock_bind blockA engineA = Inr E1
           \<and> StateBlock_bind blockA E1 = Inr E1)"
  using StateBlock_bind_is_restore_then_bindNoRestore_and_rebinding_is_silent
          [OF defaultState_engineA, of blockA]
  by (simp add: defaultState_engineA)

section \<open>The claim about the hierarchy\<close>

text \<open>
  Claim C1, as amended. For a RenderState whose parent chain is finite and ends in null
  (hence acyclic), \<open>bind(pass)\<close> returns, and it does what the spec's words say: it
  restores once with the union of the override bits of all levels and then binds the
  levels top-down, every level's parameters and then its block. Consequently each
  tracked state whose override bit is set at some level holds, afterwards, the value of
  the nearest such level: this RenderState's value when its own block has the bit set,
  and otherwise the value of the nearest ancestor whose block has it set.
\<close>

theorem RenderState_bind_restores_once_then_binds_top_down:
  assumes "ancestry h this as"
  shows "RenderState_bind h this pass E = Some (bind_top_down h as (getEffect pass) E)
     \<and> (\<forall>d. defaultState E = Some d \<longrightarrow>
          (\<exists>E' d'. RenderState_bind h this pass E = Some (Inr E') \<and> defaultState E' = Some d'
             \<and> (\<forall>s sb. nearest_override h as s = Some sb \<longrightarrow> held d' s = held sb s)))"
  using RenderState_bind_chain [OF assms] bind_decided_by_nearest_override [OF assms]
  by blast

theorem RenderState_bind_restores_once_then_binds_top_down_witness:
  "ancestry cull_heap 0 [0, 1]
   \<and> defaultState (initialize engine0) = Some StateBlock_create
   \<and> nearest_override cull_heap [0, 1] CULL_FACE = Some (setCullFace True StateBlock_create)
   \<and> RenderState_bind cull_heap 0 pass0 (initialize engine0)
       = Some (bind_top_down cull_heap [0, 1] (getEffect pass0) (initialize engine0))
   \<and> (\<exists>E' d'. RenderState_bind cull_heap 0 pass0 (initialize engine0) = Some (Inr E')
         \<and> defaultState E' = Some d'
         \<and> held d' CULL_FACE = held (setCullFace True StateBlock_create) CULL_FACE)"
  using RenderState_bind_restores_once_then_binds_top_down
          [OF cull_heap_simps(1), of pass0 "initialize engine0"]
        cull_heap_simps(1) defaultState_initialize cull_nearest
  by blast

text \<open>
  Claim C1 as stated fails where "set by" a block means that the setter was called: the
  child's block was given \<open>setCullFace(false)\<close>, which clears its bit because off is the
  default, so after \<open>bind\<close> face culling is still enabled as the parent's block has it,
  while the child's block holds it disabled.
\<close>

theorem child_setCullFace_false_does_not_override_parent:
  "cached_after (RenderState_bind cull_heap 0 pass0 (initialize engine0)) CULL_FACE = Some (Flag True)
   \<and> block_value (cull_heap 0) CULL_FACE = Some (Flag False)
   \<and> block_value (cull_heap 1) CULL_FACE = Some (Flag True)"
proof -
  from bind_decided_by_nearest_override [OF cull_heap_simps(1) defaultState_initialize, of pass0]
  obtain E' d' where "RenderState_bind cull_heap 0 pass0 (initialize engine0) = Some (Inr E')"
    and "defaultState E' = Some d'"
    and "held d' CULL_FACE = held (setCullFace True StateBlock_create) CULL_FACE"
    using cull_nearest by blast
  then have "cached_after (RenderState_bind cull_heap 0 pass0 (initialize engine0)) CULL_FACE
             = Some (Flag True)"
    by (simp add: cached_after_def setCullFace_def)
  then show ?thesis
    by (simp add: block_value_def cull_heap_simps setCullFace_def StateBlock_create_def)
qed

section \<open>The claims about auto-bindings\<close>

text \<open>
  Claim C7. When \<open>applyAutoBinding\<close> resolves a binding name for the parameter that
  \<open>getParameter\<close> returns: the custom resolvers are called in registration order, and
  the first that returns true ends the call, with the parameter as that resolver left it
  and a log that holds the resolver calls up to it and no warning; if all decline, a
  name of the built-in table binds the table's accessor of the node, \<open>MATRIX_PALETTE\<close>
  binds the palette of the node's skin or, without a skin, binds nothing and logs
  nothing, and any other name logs one warning and binds nothing. The call returns in
  each of these cases.
\<close>

theorem applyAutoBinding_resolution_order:
  assumes "getParameter name rs = (i, rs1)"
    and "p0 = parameters rs1 ! i"
    and "node = nodeBinding rs"
    and "rsv = customAutoBindingResolvers E"
  shows
    "(\<forall>pre r post.
        rsv = pre @ r # post \<and> declined pre (Some ab) node p0
          \<and> fst (r (Some ab) node (offered pre (Some ab) node p0)) \<longrightarrow>
        applyAutoBinding name (Some ab) rs E =
          Inr (rs1\<lparr>parameters := (parameters rs1)
                    [i := snd (r (Some ab) node (offered pre (Some ab) node p0))]\<rparr>,
               emit (ApplyAutoBinding name (Some ab) node
                     # map ResolverCalled [0..<Suc (length pre)]) E))
     \<and> (declined rsv (Some ab) node p0 \<longrightarrow>
          (\<forall>g. map_of builtin_table ab = Some g \<longrightarrow>
             applyAutoBinding name (Some ab) rs E =
               Inr (rs1\<lparr>parameters := (parameters rs1)
                         [i := bindValue (NodeMethod node g) (offered rsv (Some ab) node p0)]\<rparr>,
                    emit (ApplyAutoBinding name (Some ab) node
                          # map ResolverCalled [0..<length rsv]) E))
        \<and> (\<forall>n s. ab = ''MATRIX_PALETTE'' \<and> node = Some n \<and> skin_of E n = Some s \<longrightarrow>
             applyAutoBinding name (Some ab) rs E =
               Inr (rs1\<lparr>parameters := (parameters rs1)
                         [i := bindValue (MatrixPalette s) (offered rsv (Some ab) node p0)]\<rparr>,
                    emit (ApplyAutoBinding name (Some ab) node
                          # map ResolverCalled [0..<length rsv]) E))
        \<and> (\<forall>n. ab = ''MATRIX_PALETTE'' \<and> node = Some n \<and> skin_of E n = None \<longrightarrow>
             applyAutoBinding name (Some ab) rs E =
               Inr (rs1\<lparr>parameters := (parameters rs1)[i := offered rsv (Some ab) node p0]\<rparr>,
                    emit (ApplyAutoBinding name (Some ab) node
                          # map ResolverCalled [0..<length rsv]) E))
        \<and> (map_of builtin_table ab = None \<and> ab \<noteq> ''MATRIX_PALETTE'' \<longrightarrow>
             applyAutoBinding name (Some ab) rs E =
               Inr (rs1\<lparr>parameters := (parameters rs1)[i := offered rsv (Some ab) node p0]\<rparr>,
                    emit (ApplyAutoBinding name (Some ab) node
                          # map ResolverCalled [0..<length rsv]
                          @ [Warning ''Unsupported auto binding type (%d).'' (Some ab)]) E)))"
proof (intro conjI allI impI)
  fix pre r post
  assume "rsv = pre @ r # post \<and> declined pre (Some ab) node p0
          \<and> fst (r (Some ab) node (offered pre (Some ab) node p0))"
  then show "applyAutoBinding name (Some ab) rs E =
          Inr (rs1\<lparr>parameters := (parameters rs1)
                    [i := snd (r (Some ab) node (offered pre (Some ab) node p0))]\<rparr>,
               emit (ApplyAutoBinding name (Some ab) node
                     # map ResolverCalled [0..<Suc (length pre)]) E)"
    using applyAutoBinding_handled [of name rs i rs1 E pre r post "Some ab"] assms by simp
next
  fix g
  assume d: "declined rsv (Some ab) node p0" and "map_of builtin_table ab = Some g"
  then show "applyAutoBinding name (Some ab) rs E =
               Inr (rs1\<lparr>parameters := (parameters rs1)
                         [i := bindValue (NodeMethod node g) (offered rsv (Some ab) node p0)]\<rparr>,
                    emit (ApplyAutoBinding name (Some ab) node
                          # map ResolverCalled [0..<length rsv]) E)"
    using applyAutoBinding_declined [of name rs i rs1 E ab] assms
    by (simp add: builtin_table_hit)
next
  fix n s
  assume d: "declined rsv (Some ab) node p0"
    and "ab = ''MATRIX_PALETTE'' \<and> node = Some n \<and> skin_of E n = Some s"
  then show "applyAutoBinding name (Some ab) rs E =
               Inr (rs1\<lparr>parameters := (parameters rs1)
                         [i := bindValue (MatrixPalette s) (offered rsv (Some ab) node p0)]\<rparr>,
                    emit (ApplyAutoBinding name (Some ab) node
                          # map ResolverCalled [0..<length rsv]) E)"
    using applyAutoBinding_declined [of name rs i rs1 E ab] assms
    by (simp add: builtin_palette skin_of_def emit_def)
next
  fix n
  assume d: "declined rsv (Some ab) node p0"
    and "ab = ''MATRIX_PALETTE'' \<and> node = Some n \<and> skin_of E n = None"
  then show "applyAutoBinding name (Some ab) rs E =
               Inr (rs1\<lparr>parameters := (parameters rs1)[i := offered rsv (Some ab) node p0]\<rparr>,
                    emit (ApplyAutoBinding name (Some ab) node
                          # map ResolverCalled [0..<length rsv]) E)"
    using applyAutoBinding_declined [of name rs i rs1 E ab] assms
    by (simp add: builtin_palette skin_of_def emit_def)
next
  assume d: "declined rsv (Some ab) node p0"
    and "map_of builtin_table ab = None \<and> ab \<noteq> ''MATRIX_PALETTE''"
  then show "applyAutoBinding name (Some ab) rs E =
               Inr (rs1\<lparr>parameters := (parameters rs1)[i := offered rsv (Some ab) node p0]\<rparr>,
                    emit (ApplyAutoBinding name (Some ab) node
                          # map ResolverCalled [0..<length rsv]
                          @ [Warning ''Unsupported auto binding type (%d).'' (Some ab)]) E)"
    using applyAutoBinding_declined [of name rs i rs1 E ab] assms
    by (simp add: builtin_table_miss emit_def)
qed

theorem applyAutoBinding_resolution_order_witness:
  "getParameter ''u'' rs_node = (0, rs_node\<lparr>parameters := [param_u Unset]\<rparr>)
   \<and> customAutoBindingResolvers engineT = [] @ time_resolver # []
   \<and> declined [] (Some ''TIME'') (Some 3) (param_u Unset)
   \<and> fst (time_resolver (Some ''TIME'') (Some 3) (offered [] (Some ''TIME'') (Some 3) (param_u Unset)))
   \<and> applyAutoBinding ''u'' (Some ''TIME'') rs_node engineT =
       Inr (rs_node\<lparr>parameters := [param_u (Literal 1)]\<rparr>,
            emit [ApplyAutoBinding ''u'' (Some ''TIME'') (Some 3), ResolverCalled 0] engineT)
   \<and> declined [time_resolver] (Some ''WORLD_MATRIX'') (Some 3) (param_u Unset)
   \<and> map_of builtin_table ''WORLD_MATRIX'' = Some getWorldMatrix
   \<and> applyAutoBinding ''u'' (Some ''WORLD_MATRIX'') rs_node engineT =
       Inr (rs_node\<lparr>parameters := [param_u (NodeMethod (Some 3) getWorldMatrix)]\<rparr>,
            emit [ApplyAutoBinding ''u'' (Some ''WORLD_MATRIX'') (Some 3), ResolverCalled 0] engineT)
   \<and> declined [time_resolver] (Some ''MATRIX_PALETTE'') (Some 3) (param_u Unset)
   \<and> skin_of engineT 3 = None
   \<and> applyAutoBinding ''u'' (Some ''MATRIX_PALETTE'') rs_node engineT =
       Inr (rs_node\<lparr>parameters := [param_u Unset]\<rparr>,
            emit [ApplyAutoBinding ''u'' (Some ''MATRIX_PALETTE'') (Some 3), ResolverCalled 0] engineT)
   \<and> declined [time_resolver] (Some ''BOGUS'') (Some 3) (param_u Unset)
   \<and> map_of builtin_table ''BOGUS'' = None
   \<and> applyAutoBinding ''u'' (Some ''BOGUS'') rs_node engineT =
       Inr (rs_node\<lparr>parameters := [param_u Unset]\<rparr>,
            emit [ApplyAutoBinding ''u'' (Some ''BOGUS'') (Some 3), ResolverCalled 0,
                  Warning ''Unsupported auto binding type (%d).'' (Some ''BOGUS'')] engineT)"
proof -
  have p0: "param_u Unset = parameters (rs_node\<lparr>parameters := [param_u Unset]\<rparr>) ! 0"
    by simp
  have node: "Some 3 = nodeBinding rs_node"
    by (simp add: rs_node_def)
  have rsv: "[time_resolver] = customAutoBindingResolvers engineT"
    by (simp add: engineT_simps)
  note inst = applyAutoBinding_resolution_order [OF rs_node_getParameter p0 node rsv]
  have decl: "\<And>ab. ab \<noteq> ''TIME'' \<Longrightarrow> declined [time_resolver] (Some ab) (Some 3) (param_u Unset)"
    by (simp add: time_resolver_simps)
  have a: "applyAutoBinding ''u'' (Some ''TIME'') rs_node engineT =
       Inr (rs_node\<lparr>parameters := [param_u (Literal 1)]\<rparr>,
            emit [ApplyAutoBinding ''u'' (Some ''TIME'') (Some 3), ResolverCalled 0] engineT)"
    using inst [of "''TIME''", THEN conjunct1, rule_format, of "[]" time_resolver "[]"]
    by (simp add: time_resolver_simps param_u_def)
  have b: "applyAutoBinding ''u'' (Some ''WORLD_MATRIX'') rs_node engineT =
       Inr (rs_node\<lparr>parameters := [param_u (NodeMethod (Some 3) getWorldMatrix)]\<rparr>,
            emit [ApplyAutoBinding ''u'' (Some ''WORLD_MATRIX'') (Some 3), ResolverCalled 0] engineT)"
    using inst [of "''WORLD_MATRIX''", THEN conjunct2] decl [of "''WORLD_MATRIX''"]
    by (simp add: builtin_table_examples time_resolver_simps param_u_def bindValue_def)
  have c: "applyAutoBinding ''u'' (Some ''MATRIX_PALETTE'') rs_node engineT =
       Inr (rs_node\<lparr>parameters := [param_u Unset]\<rparr>,
            emit [ApplyAutoBinding ''u'' (Some ''MATRIX_PALETTE'') (Some 3), ResolverCalled 0] engineT)"
    using inst [of "''MATRIX_PALETTE''", THEN conjunct2] decl [of "''MATRIX_PALETTE''"]
    by (simp add: engineT_simps time_resolver_simps)
  have d: "applyAutoBinding ''u'' (Some ''BOGUS'') rs_node engineT =
       Inr (rs_node\<lparr>parameters := [param_u Unset]\<rparr>,
            emit [ApplyAutoBinding ''u'' (Some ''BOGUS'') (Some 3), ResolverCalled 0,
                  Warning ''Unsupported auto binding type (%d).'' (Some ''BOGUS'')] engineT)"
    using inst [of "''BOGUS''", THEN conjunct2] decl [of "''BOGUS''"]
    by (simp add: builtin_table_examples time_resolver_simps)
  show ?thesis
    using a b c d decl [of "''WORLD_MATRIX''"] decl [of "''MATRIX_PALETTE''"] decl [of "''BOGUS''"]
    by (simp add: rs_node_getParameter engineT_simps builtin_table_examples time_resolver_simps)
qed

text \<open>
  Claim C8. Setting an auto-binding on a RenderState without a node binding records
  the entry in the map and does nothing else (no parameter is created or changed,
  nothing is logged). Attaching a node other than the current one afterwards is the
  sequence of the applications of the recorded entries, in the order of the map, each
  against the new node and each on the result of the one before: it returns, it enters
  \<open>applyAutoBinding\<close> exactly once per entry, and, where the registered resolvers are
  inert, it leaves the parameter of every entry whose binding is in the built-in table
  bound to the table's accessor of the new node. And when a node is attached already,
  setting an auto-binding records the entry and applies it at once, entering
  \<open>applyAutoBinding\<close> once and binding the parameter in the same way.
\<close>

theorem auto_bindings_recorded_then_applied_once:
  "(nodeBinding rs = None \<longrightarrow>
      setParameterAutoBinding name (Some ab) rs E
        = Inr (rs\<lparr>autoBindings := map_assign name ab (autoBindings rs)\<rparr>, E)
      \<and> map_find (map_assign name ab (autoBindings rs)) name = Some ab)
   \<and> (\<forall>n. nodeBinding rs \<noteq> Some n \<longrightarrow>
        setNodeBinding (Some n) rs E
          = fold apply_entry (autoBindings rs) (Inr (rs\<lparr>nodeBinding := Some n\<rparr>, E))
        \<and> (\<exists>rs' E'. setNodeBinding (Some n) rs E = Inr (rs', E')
              \<and> nodeBinding rs' = Some n \<and> autoBindings rs' = autoBindings rs
              \<and> applications (log E') = applications (log E) @ map (application n) (autoBindings rs)
              \<and> ((\<forall>r \<in> set (customAutoBindingResolvers E). inert r)
                    \<and> distinct (map fst (autoBindings rs)) \<longrightarrow>
                  (\<forall>k v g. (k, v) \<in> set (autoBindings rs) \<and> map_of builtin_table v = Some g \<longrightarrow>
                     parameter_value rs' k = Some (NodeMethod (Some n) g)))))
   \<and> (\<forall>n. nodeBinding rs = Some n \<longrightarrow>
        setParameterAutoBinding name (Some ab) rs E
          = applyAutoBinding name (Some ab) (rs\<lparr>autoBindings := map_assign name ab (autoBindings rs)\<rparr>) E
        \<and> (\<exists>rs' E'. setParameterAutoBinding name (Some ab) rs E = Inr (rs', E')
              \<and> autoBindings rs' = map_assign name ab (autoBindings rs)
              \<and> applications (log E') = applications (log E) @ [application n (name, ab)]
              \<and> ((\<forall>r \<in> set (customAutoBindingResolvers E). inert r) \<longrightarrow>
                  (\<forall>g. map_of builtin_table ab = Some g \<longrightarrow>
                     parameter_value rs' name = Some (NodeMethod (Some n) g)))))"
proof (intro conjI allI impI)
  assume "nodeBinding rs = None"
  then show "setParameterAutoBinding name (Some ab) rs E
        = Inr (rs\<lparr>autoBindings := map_assign name ab (autoBindings rs)\<rparr>, E)"
    by (simp add: setParameterAutoBinding_def)
next
  show "map_find (map_assign name ab (autoBindings rs)) name = Some ab"
    by (rule map_find_assign)
next
  fix n
  assume "nodeBinding rs \<noteq> Some n"
  then show "setNodeBinding (Some n) rs E
          = fold apply_entry (autoBindings rs) (Inr (rs\<lparr>nodeBinding := Some n\<rparr>, E))"
    by (simp add: setNodeBinding_def apply_all_fold)
next
  fix n
  assume ne: "nodeBinding rs \<noteq> Some n"
  let ?rs0 = "rs\<lparr>nodeBinding := Some n\<rparr>"
  have nb: "nodeBinding ?rs0 = Some n" by simp
  have eq: "setNodeBinding (Some n) rs E = apply_all (autoBindings rs) ?rs0 E"
    using ne by (simp add: setNodeBinding_def)
  from apply_all_Some [OF nb, of "autoBindings rs" E]
  obtain rs' E' where r: "apply_all (autoBindings rs) ?rs0 E = Inr (rs', E')"
    and f: "nodeBinding rs' = Some n" "autoBindings rs' = autoBindings rs"
      "applications (log E') = applications (log E) @ map (application n) (autoBindings rs)"
    by auto
  have pin: "(\<forall>r \<in> set (customAutoBindingResolvers E). inert r)
               \<and> distinct (map fst (autoBindings rs)) \<longrightarrow>
             (\<forall>k v g. (k, v) \<in> set (autoBindings rs) \<and> map_of builtin_table v = Some g \<longrightarrow>
                parameter_value rs' k = Some (NodeMethod (Some n) g))"
  proof
    assume h: "(\<forall>r \<in> set (customAutoBindingResolvers E). inert r)
                 \<and> distinct (map fst (autoBindings rs))"
    from h have h1: "\<forall>r \<in> set (customAutoBindingResolvers E). inert r"
      and h2: "distinct (map fst (autoBindings rs))" by simp_all
    from apply_all_inert [OF h1 nb h2] r
    show "\<forall>k v g. (k, v) \<in> set (autoBindings rs) \<and> map_of builtin_table v = Some g \<longrightarrow>
                parameter_value rs' k = Some (NodeMethod (Some n) g)"
      by auto
  qed
  from eq r f pin
  show "\<exists>rs' E'. setNodeBinding (Some n) rs E = Inr (rs', E')
              \<and> nodeBinding rs' = Some n \<and> autoBindings rs' = autoBindings rs
              \<and> applications (log E') = applications (log E) @ map (application n) (autoBindings rs)
              \<and> ((\<forall>r \<in> set (customAutoBindingResolvers E). inert r)
                    \<and> distinct (map fst (autoBindings rs)) \<longrightarrow>
                  (\<forall>k v g. (k, v) \<in> set (autoBindings rs) \<and> map_of builtin_table v = Some g \<longrightarrow>
                     parameter_value rs' k = Some (NodeMethod (Some n) g)))"
    by (intro exI [of _ rs'] exI [of _ E']) simp
next
  fix n
  assume nb: "nodeBinding rs = Some n"
  then show "setParameterAutoBinding name (Some ab) rs E
          = applyAutoBinding name (Some ab) (rs\<lparr>autoBindings := map_assign name ab (autoBindings rs)\<rparr>) E"
    by (simp add: setParameterAutoBinding_def)
next
  fix n
  assume nb: "nodeBinding rs = Some n"
  let ?rs0 = "rs\<lparr>autoBindings := map_assign name ab (autoBindings rs)\<rparr>"
  have nb0: "nodeBinding ?rs0 = Some n" using nb by simp
  have eq: "setParameterAutoBinding name (Some ab) rs E = applyAutoBinding name (Some ab) ?rs0 E"
    using nb by (simp add: setParameterAutoBinding_def)
  from applyAutoBinding_Some [OF nb0, of name ab E]
  obtain rs' E' where r: "applyAutoBinding name (Some ab) ?rs0 E = Inr (rs', E')"
    and f: "autoBindings rs' = map_assign name ab (autoBindings rs)"
      "applications (log E') = applications (log E) @ [application n (name, ab)]"
    by (auto simp add: application_def)
  have pin: "(\<forall>r \<in> set (customAutoBindingResolvers E). inert r) \<longrightarrow>
             (\<forall>g. map_of builtin_table ab = Some g \<longrightarrow>
                parameter_value rs' name = Some (NodeMethod (Some n) g))"
  proof
    assume h: "\<forall>r \<in> set (customAutoBindingResolvers E). inert r"
    from applyAutoBinding_inert [OF h nb0, of name ab] r
    show "\<forall>g. map_of builtin_table ab = Some g \<longrightarrow>
                parameter_value rs' name = Some (NodeMethod (Some n) g)"
      by auto
  qed
  from eq r f pin
  show "\<exists>rs' E'. setParameterAutoBinding name (Some ab) rs E = Inr (rs', E')
              \<and> autoBindings rs' = map_assign name ab (autoBindings rs)
              \<and> applications (log E') = applications (log E) @ [application n (name, ab)]
              \<and> ((\<forall>r \<in> set (customAutoBindingResolvers E). inert r) \<longrightarrow>
                  (\<forall>g. map_of builtin_table ab = Some g \<longrightarrow>
                     parameter_value rs' name = Some (NodeMethod (Some n) g)))"
    by (intro exI [of _ rs'] exI [of _ E']) simp
qed

theorem auto_bindings_recorded_then_applied_once_witness:
  "nodeBinding rs_two = None
   \<and> setParameterAutoBinding ''w'' (Some ''PROJECTION_MATRIX'') rs_two engineI
       = Inr (rs_two\<lparr>autoBindings := [(''u'', ''WORLD_MATRIX''), (''v'', ''VIEW_MATRIX''),
                                         (''w'', ''PROJECTION_MATRIX'')]\<rparr>, engineI)
   \<and> nodeBinding rs_two \<noteq> Some 3
   \<and> customAutoBindingResolvers engineI = [idle_resolver] \<and> inert idle_resolver
   \<and> distinct (map fst (autoBindings rs_two))
   \<and> setNodeBinding (Some 3) rs_two engineI
       = Inr (rs_two\<lparr>nodeBinding := Some 3,
                      parameters := [param_u (NodeMethod (Some 3) getWorldMatrix),
                                     param_v (NodeMethod (Some 3) getViewMatrix)]\<rparr>,
              emit [ApplyAutoBinding ''u'' (Some ''WORLD_MATRIX'') (Some 3), ResolverCalled 0,
                    ApplyAutoBinding ''v'' (Some ''VIEW_MATRIX'') (Some 3), ResolverCalled 0] engineI)
   \<and> (\<exists>rs' E'. setNodeBinding (Some 3) rs_two engineI = Inr (rs', E')
         \<and> applications (log E') = [ApplyAutoBinding ''u'' (Some ''WORLD_MATRIX'') (Some 3),
                                     ApplyAutoBinding ''v'' (Some ''VIEW_MATRIX'') (Some 3)]
         \<and> parameter_value rs' ''u'' = Some (NodeMethod (Some 3) getWorldMatrix)
         \<and> parameter_value rs' ''v'' = Some (NodeMethod (Some 3) getViewMatrix))
   \<and> nodeBinding rs_node = Some 3
   \<and> (\<exists>rs' E'. setParameterAutoBinding ''u'' (Some ''WORLD_MATRIX'') rs_node engineI = Inr (rs', E')
         \<and> autoBindings rs' = [(''u'', ''WORLD_MATRIX'')]
         \<and> applications (log E') = [ApplyAutoBinding ''u'' (Some ''WORLD_MATRIX'') (Some 3)]
         \<and> parameter_value rs' ''u'' = Some (NodeMethod (Some 3) getWorldMatrix))"
proof -
  note t2 = auto_bindings_recorded_then_applied_once
              [of rs_two "''w''" "''PROJECTION_MATRIX''" engineI]
  note t3 = auto_bindings_recorded_then_applied_once
              [of rs_node "''u''" "''WORLD_MATRIX''" engineI]
  have ne: "nodeBinding rs_two \<noteq> Some 3"
    by (simp add: rs_two_simps)
  have in_all: "\<forall>r \<in> set (customAutoBindingResolvers engineI). inert r"
    by (simp add: engineI_simps)
  have dist: "distinct (map fst (autoBindings rs_two))"
    by (simp add: rs_two_simps)
  have a: "setParameterAutoBinding ''w'' (Some ''PROJECTION_MATRIX'') rs_two engineI
       = Inr (rs_two\<lparr>autoBindings := [(''u'', ''WORLD_MATRIX''), (''v'', ''VIEW_MATRIX''),
                                         (''w'', ''PROJECTION_MATRIX'')]\<rparr>, engineI)"
    using t2 [THEN conjunct1] by (simp add: rs_two_simps)
  note second = t2 [THEN conjunct2, THEN conjunct1, rule_format, OF ne]
  have b: "setNodeBinding (Some 3) rs_two engineI
       = Inr (rs_two\<lparr>nodeBinding := Some 3,
                      parameters := [param_u (NodeMethod (Some 3) getWorldMatrix),
                                     param_v (NodeMethod (Some 3) getViewMatrix)]\<rparr>,
              emit [ApplyAutoBinding ''u'' (Some ''WORLD_MATRIX'') (Some 3), ResolverCalled 0,
                    ApplyAutoBinding ''v'' (Some ''VIEW_MATRIX'') (Some 3), ResolverCalled 0] engineI)"
    using second [THEN conjunct1] by (simp only: rs_two_applied)
  from second [THEN conjunct2]
  obtain rs' E' where r: "setNodeBinding (Some 3) rs_two engineI = Inr (rs', E')"
    and l: "applications (log E')
              = applications (log engineI) @ map (application 3) (autoBindings rs_two)"
    and pin: "(\<forall>r \<in> set (customAutoBindingResolvers engineI). inert r)
                \<and> distinct (map fst (autoBindings rs_two)) \<longrightarrow>
              (\<forall>k v g. (k, v) \<in> set (autoBindings rs_two) \<and> map_of builtin_table v = Some g \<longrightarrow>
                 parameter_value rs' k = Some (NodeMethod (Some 3) g))"
    by blast
  from pin in_all dist
  have pins: "\<And>k v g. (k, v) \<in> set (autoBindings rs_two) \<Longrightarrow> map_of builtin_table v = Some g \<Longrightarrow>
                 parameter_value rs' k = Some (NodeMethod (Some 3) g)"
    by blast
  have pu: "parameter_value rs' ''u'' = Some (NodeMethod (Some 3) getWorldMatrix)"
    by (rule pins [of _ "''WORLD_MATRIX''"]) (simp_all add: rs_two_simps builtin_table_examples)
  have pv: "parameter_value rs' ''v'' = Some (NodeMethod (Some 3) getViewMatrix)"
    by (rule pins [of _ "''VIEW_MATRIX''"]) (simp_all add: rs_two_simps builtin_table_VIEW)
  have l': "applications (log E') = [ApplyAutoBinding ''u'' (Some ''WORLD_MATRIX'') (Some 3),
                                     ApplyAutoBinding ''v'' (Some ''VIEW_MATRIX'') (Some 3)]"
    using l by (simp add: engineI_simps rs_two_simps application_def)
  have c: "\<exists>rs' E'. setNodeBinding (Some 3) rs_two engineI = Inr (rs', E')
         \<and> applications (log E') = [ApplyAutoBinding ''u'' (Some ''WORLD_MATRIX'') (Some 3),
                                     ApplyAutoBinding ''v'' (Some ''VIEW_MATRIX'') (Some 3)]
         \<and> parameter_value rs' ''u'' = Some (NodeMethod (Some 3) getWorldMatrix)
         \<and> parameter_value rs' ''v'' = Some (NodeMethod (Some 3) getViewMatrix)"
    using r l' pu pv by blast
  from t3 [THEN conjunct2, THEN conjunct2, rule_format, OF rs_simps(3), THEN conjunct2]
  obtain rs3 E3 where r3: "setParameterAutoBinding ''u'' (Some ''WORLD_MATRIX'') rs_node engineI = Inr (rs3, E3)"
    and ab3: "autoBindings rs3 = map_assign ''u'' ''WORLD_MATRIX'' (autoBindings rs_node)"
    and l3: "applications (log E3)
               = applications (log engineI) @ [application 3 (''u'', ''WORLD_MATRIX'')]"
    and pin3: "(\<forall>r \<in> set (customAutoBindingResolvers engineI). inert r) \<longrightarrow>
               (\<forall>g. map_of builtin_table ''WORLD_MATRIX'' = Some g \<longrightarrow>
                  parameter_value rs3 ''u'' = Some (NodeMethod (Some 3) g))"
    by blast
  from pin3 in_all builtin_table_examples(1)
  have p3: "parameter_value rs3 ''u'' = Some (NodeMethod (Some 3) getWorldMatrix)"
    by blast
  have d: "\<exists>rs' E'. setParameterAutoBinding ''u'' (Some ''WORLD_MATRIX'') rs_node engineI = Inr (rs', E')
         \<and> autoBindings rs' = [(''u'', ''WORLD_MATRIX'')]
         \<and> applications (log E') = [ApplyAutoBinding ''u'' (Some ''WORLD_MATRIX'') (Some 3)]
         \<and> parameter_value rs' ''u'' = Some (NodeMethod (Some 3) getWorldMatrix)"
    using r3 ab3 l3 p3
    by (intro exI [of _ rs3] exI [of _ E3]) (simp add: rs_simps engineI_simps application_def)
  from a ne dist b c d rs_two_simps(1) rs_simps(3) engineI_simps(1,3) show ?thesis
    by blast
qed

text \<open>
  Claim C10, at the inputs where the code departs from it: with a node binding attached
  and an entry recorded for the name, a null binding name does not just remove the
  entry. Where assertions are enabled, \<open>GP_ASSERT(autoBinding)\<close> aborts the call before
  the map is touched; where they are compiled out, the entry is erased and then
  \<open>applyAutoBinding\<close> passes the null name to \<open>strcmp\<close>.
\<close>

theorem null_binding_with_node_attached_fails:
  "setParameterAutoBinding ''u'' None rs_bound (initialize engine0) = Inl AssertionFailed
   \<and> setParameterAutoBinding ''u'' None rs_bound engineR = Inl NullPointer"
  by (simp add: setParameterAutoBinding_def applyAutoBinding_def getParameter_def
      initialize_engine0_simps rs_simps map_find_def Let_def emit_def)

text \<open>
  Claim C6, at the input where the code departs from it: \<open>autoBindingToString\<close> has no
  case for \<open>WORLD_MATRIX\<close>, which falls to the default label and becomes the empty
  string. On a RenderState with a node attached, the enum overload therefore records
  the empty name, binds nothing and logs a warning, while the string overload with
  \<open>WORLD_MATRIX\<close> binds the world matrix of the node.
\<close>

theorem enum_WORLD_MATRIX_is_not_resolved:
  "autoBindingToString WORLD_MATRIX = Some []
   \<and> setParameterAutoBinding_enum ''u'' WORLD_MATRIX rs_node (initialize engine0)
       = Inr (rs_node\<lparr>parameters := [param_u Unset], autoBindings := [(''u'', [])]\<rparr>,
              emit [ApplyAutoBinding ''u'' (Some []) (Some 3),
                    Warning ''Unsupported auto binding type (%d).'' (Some [])] (initialize engine0))
   \<and> setParameterAutoBinding ''u'' (Some (spelled WORLD_MATRIX)) rs_node (initialize engine0)
       = Inr (rs_node\<lparr>parameters := [param_u (NodeMethod (Some 3) getWorldMatrix)],
                     autoBindings := [(''u'', ''WORLD_MATRIX'')]\<rparr>,
              emit [ApplyAutoBinding ''u'' (Some ''WORLD_MATRIX'') (Some 3)] (initialize engine0))"
  by (simp add: setParameterAutoBinding_enum_def setParameterAutoBinding_def applyAutoBinding_def
      getParameter_def initialize_engine0_simps rs_simps builtin_resolution_def GP_WARN_def
      emit_def bindValue_def param_u_def rs_node_def RenderState_create_def Let_def)

section \<open>The claim about setState\<close>

text \<open>
  Claim C9. \<open>setState\<close> is the function that the two vocabularies describe: a name of
  the table of state names (compared exactly, hence case-sensitive, with the aliases
  \<open>srcBlend\<close> and \<open>dstBlend\<close>) calls the setter of its key with the parsed value, and
  any other name leaves the block as it is and reports one error; a boolean value is
  true exactly when it is \<open>true\<close> in lower case after \<open>tolower\<close>; a blend value is looked
  up in the closed vocabulary after \<open>toupper\<close>, and a value outside it is reported and
  becomes \<open>BLEND_ONE\<close>. Every call returns, so execution continues.
\<close>

theorem setState_recognizes_exactly_the_vocabulary:
  "setState name v sb E = setState_spec name v sb E
   \<and> parseBoolean v = (map tolower v = ''true'')
   \<and> fst (parseBlend v E)
       = (case map_of blend_names (map toupper v) of Some b \<Rightarrow> b | None \<Rightarrow> BLEND_ONE)"
  using setState_refines [of name v sb E] parseBoolean_is_true [of v] parseBlend_blend_of [of v E]
  by (simp add: is_true_def blend_of_def)

end
